theory Spec2Isabelle
  imports Complex_Main "HOL-Library.Log_Nat"
begin

section \<open>Numbers and points\<close>

text \<open>
  A JavaScript Number is an IEEE 754 binary64 value: NaN, an infinity with its sign, or
  a sign and a magnitude. The magnitudes are the reals \<open>n * 2 ^ k * MIN_VALUE\<close> with
  \<open>n < 2 ^ 53\<close> that are below \<open>2 ^ 1024\<close>; \<open>MIN_VALUE\<close> is the smallest positive one.
  Zero has a sign as every other number has: \<open>Num False 0\<close> is \<open>+0\<close> and \<open>Num True 0\<close>
  is \<open>-0\<close>.
\<close>

datatype jsnum = Num bool real | Infinity bool | NaN

definition MIN_VALUE :: real where
  "MIN_VALUE = 1 / 2 ^ 1074"

definition on_grid :: "real \<Rightarrow> real \<Rightarrow> bool" where
  "on_grid u d = (\<exists>n k. d = real n * 2 ^ k * u \<and> n < 2 ^ 53)"

definition double :: "real \<Rightarrow> bool" where
  "double d = on_grid MIN_VALUE d"

text \<open>The number with the real value \<open>x\<close>, for the literals of the program.\<close>

definition num :: "real \<Rightarrow> jsnum" where
  "num x = Num (x < 0) \<bar>x\<bar>"

definition js_val :: "bool \<Rightarrow> real \<Rightarrow> real" where
  "js_val s m = (if s then - m else m)"

text \<open>
  The result of an arithmetic operation is the exact result rounded to the nearest
  double, a tie going to the one with the even mantissa (\<open>rne\<close> does this for the
  integers). \<open>round_grid u x\<close> rounds \<open>x \<ge> 0\<close> where the smallest positive magnitude is
  \<open>u\<close>: \<open>x\<close> is \<open>y\<close> in units of \<open>u\<close>, the integer part of \<open>y\<close> has \<open>bitlen \<lfloor>y\<rfloor>\<close> binary
  digits, of which a mantissa holds 53, so the doubles next to \<open>y\<close> are the multiples of
  \<open>2 ^ k\<close>. A result of \<open>2 ^ 1024\<close> or more stands for an overflow.
\<close>

definition rne :: "real \<Rightarrow> int" where
  "rne x =
     (let f = \<lfloor>x\<rfloor> in
      if x - of_int f < 1 / 2 then f
      else if 1 / 2 < x - of_int f then f + 1
      else if even f then f else f + 1)"

definition round_grid :: "real \<Rightarrow> real \<Rightarrow> real" where
  "round_grid u x =
     (let y = x / u;
          k = nat (bitlen \<lfloor>y\<rfloor> - 53)
      in of_int (rne (y / 2 ^ k)) * 2 ^ k * u)"

definition round64 :: "real \<Rightarrow> real" where
  "round64 x = round_grid MIN_VALUE x"

text \<open>
  The operator \<^verbatim>\<open>/\<close>, the only arithmetic that \<^verbatim>\<open>Stage.js\<close> itself does (lines 86, 183
  and 184). The sign of the result is the exclusive or of the signs. A finite number
  over zero is an infinity and zero over zero is NaN; over an infinity it is zero; the
  quotient of two finite numbers is rounded, to an infinity when it overflows and to
  zero when it is below half of \<open>MIN_VALUE\<close>.
\<close>

fun js_div :: "jsnum \<Rightarrow> jsnum \<Rightarrow> jsnum" where
  "js_div (Num s m) (Num t n) =
     (if n = 0 then (if m = 0 then NaN else Infinity (s \<noteq> t))
      else (let r = round64 (m / n)
            in if 2 ^ 1024 \<le> r then Infinity (s \<noteq> t) else Num (s \<noteq> t) r))"
| "js_div (Num s m) (Infinity t) = Num (s \<noteq> t) 0"
| "js_div (Infinity s) (Num t n) = Infinity (s \<noteq> t)"
| "js_div (Infinity s) (Infinity t) = NaN"
| "js_div NaN b = NaN"
| "js_div a NaN = NaN"

text \<open>\<^verbatim>\<open>a < c\<close> for a finite constant \<open>c\<close>; every comparison with NaN is false.\<close>

fun js_less :: "jsnum \<Rightarrow> real \<Rightarrow> bool" where
  "js_less (Num s m) c = (js_val s m < c)"
| "js_less (Infinity s) c = s"
| "js_less NaN c = False"

text \<open>\<^verbatim>\<open>PIXI.Point\<close> and the \<^verbatim>\<open>{x, y}\<close> object of a click.\<close>

record 'a point =
  px :: 'a
  py :: 'a

definition Point :: "'a \<Rightarrow> 'a \<Rightarrow> 'a point" where
  "Point a b = \<lparr>px = a, py = b\<rparr>"

text \<open>
  Modelled from the spec: \<^verbatim>\<open>Utils.pointDistance\<close> (\<^verbatim>\<open>libs/utils\<close> is not part of the
  sources at hand) is the Euclidean distance of two points, which is taken exactly
  here. The first argument is a duck's position, which is finite; the second is the
  rescaled click. A NaN coordinate makes the distance NaN, an infinite one makes it
  \<open>+Infinity\<close>.
\<close>

fun pointDistance :: "real point \<Rightarrow> jsnum point \<Rightarrow> jsnum" where
  "pointDistance p q =
     (case (px q, py q) of
        (Num s a, Num t b) \<Rightarrow>
          Num False (sqrt ((px p - js_val s a)\<^sup>2 + (py p - js_val t b)\<^sup>2))
      | (NaN, _) \<Rightarrow> NaN
      | (_, NaN) \<Rightarrow> NaN
      | _ \<Rightarrow> Infinity False)"

section \<open>Constants of \<^verbatim>\<open>Stage.js\<close>\<close>

definition MAX_X :: real where "MAX_X = 800"
definition MAX_Y :: real where "MAX_Y = 600"

definition DUCK_ORIGIN :: "real point" where
  "DUCK_ORIGIN = Point (MAX_X / 2) MAX_Y"

definition DOG_DOWN :: "real point" where
  "DOG_DOWN = Point (MAX_X / 2) MAX_Y"

definition DOG_UP :: "real point" where
  "DOG_UP = Point (MAX_X / 2) (MAX_Y - 230)"

definition DOG_SNIFF_START :: "real point" where
  "DOG_SNIFF_START = Point 0 (MAX_Y - 130)"

definition DOG_SNIFF_END :: "real point" where
  "DOG_SNIFF_END = Point (MAX_X / 2) (MAX_Y - 130)"

definition FLASH_MS :: nat where "FLASH_MS = 60"

text \<open>The point every fleeing duck is sent to: \<^verbatim>\<open>new PIXI.Point(MAX_X / 2, -500)\<close>.\<close>

definition FLEE_POINT :: "real point" where
  "FLEE_POINT = Point (MAX_X / 2) (- 500)"

section \<open>Callbacks, promises and the entities the stage drives\<close>

type_synonym ref = nat
type_synonym pid = nat

text \<open>
  The closures that \<^verbatim>\<open>Stage.js\<close> hands to its collaborators, one constructor for each
  function expression of the file:
  \<^item> \<open>FlashOff\<close>: lines 179-181, hides the flash screen;
  \<^item> \<open>DogRetrieve\<close>: lines 191-193, calls \<^verbatim>\<open>dog.retrieve()\<close>;
  \<^item> \<open>FindComplete p\<close>: lines 129-132, moves the dog to child index 0 and resolves the
    pending promise \<open>p\<close>;
  \<^item> \<open>Resolve p\<close>: line 216, \<^verbatim>\<open>duckAnimation.resolve.bind(duckAnimation)\<close>;
  \<^item> \<open>CleanUp\<close>: line 222, \<^verbatim>\<open>this.cleanUpDucks.bind(this)\<close>.
\<close>

datatype callback = FlashOff | DogRetrieve | FindComplete pid | Resolve pid | CleanUp

text \<open>
  Modelled from the spec: \<^verbatim>\<open>Duck\<close> (\<^verbatim>\<open>modules/Duck\<close> is not part of the sources at hand).
  A target has a position, the flag \<open>alive\<close> and a timeline, an ordered queue whose
  entries complete one at a time, front first: animations (random flight, the death
  animation, a flight to a point that calls back on completion) and deferred actions
  added by \<^verbatim>\<open>timeline.add\<close>. A new target is alive and idle. \<^verbatim>\<open>isActive()\<close> is true
  while anything is left on the timeline. \<^verbatim>\<open>shot()\<close> clears \<open>alive\<close> and replaces the
  flight by the death animation; \<^verbatim>\<open>stopAndClearTimeline()\<close> empties the queue.
\<close>

datatype entry =
    RandomFlight real
  | Death
  | FlyTo "real point" callback
  | Call callback

record duck =
  colorProfile :: string
  position :: "real point"
  alive :: bool
  timeline :: "entry list"

definition new_Duck :: "string \<Rightarrow> duck" where
  "new_Duck color = \<lparr>colorProfile = color, position = Point 0 0, alive = True, timeline = []\<rparr>"

definition randomFlight :: "real \<Rightarrow> duck \<Rightarrow> duck" where
  "randomFlight speed d = d\<lparr>timeline := timeline d @ [RandomFlight speed]\<rparr>"

definition shot :: "duck \<Rightarrow> duck" where
  "shot d = d\<lparr>alive := False, timeline := [Death]\<rparr>"

definition timeline_add :: "callback \<Rightarrow> duck \<Rightarrow> duck" where
  "timeline_add f d = d\<lparr>timeline := timeline d @ [Call f]\<rparr>"

definition stopAndClearTimeline :: "duck \<Rightarrow> duck" where
  "stopAndClearTimeline d = d\<lparr>timeline := []\<rparr>"

definition flyTo :: "real point \<Rightarrow> callback \<Rightarrow> duck \<Rightarrow> duck" where
  "flyTo p onComplete d = d\<lparr>timeline := timeline d @ [FlyTo p onComplete]\<rparr>"

definition duck_isActive :: "duck \<Rightarrow> bool" where
  "duck_isActive d = (timeline d \<noteq> [])"

text \<open>
  Modelled from the spec: \<^verbatim>\<open>Dog\<close> (\<^verbatim>\<open>modules/Dog\<close> is not part of the sources at hand).
  The helper character queues the behaviours it is asked for; \<^verbatim>\<open>find\<close> carries the
  completion callback; \<^verbatim>\<open>isActive()\<close> is true while a behaviour is left.
\<close>

datatype behaviour =
    Sniff "real point" "real point"
  | Find callback
  | Retrieve
  | Laugh

record dog =
  dog_visible :: bool
  downPoint :: "real point"
  upPoint :: "real point"
  script :: "behaviour list"

definition new_Dog :: "real point \<Rightarrow> real point \<Rightarrow> dog" where
  "new_Dog down up = \<lparr>dog_visible = True, downPoint = down, upPoint = up, script = []\<rparr>"

definition sniff :: "real point \<Rightarrow> real point \<Rightarrow> dog \<Rightarrow> dog" where
  "sniff startPoint endPoint g = g\<lparr>script := script g @ [Sniff startPoint endPoint]\<rparr>"

definition find_dog :: "callback \<Rightarrow> dog \<Rightarrow> dog" where
  "find_dog onComplete g = g\<lparr>script := script g @ [Find onComplete]\<rparr>"

definition retrieve :: "dog \<Rightarrow> dog" where
  "retrieve g = g\<lparr>script := script g @ [Retrieve]\<rparr>"

definition laugh :: "dog \<Rightarrow> dog" where
  "laugh g = g\<lparr>script := script g @ [Laugh]\<rparr>"

definition dog_isActive :: "dog \<Rightarrow> bool" where
  "dog_isActive g = (script g \<noteq> [])"

section \<open>The scene graph and the promise library\<close>

text \<open>
  The children of the stage, a \<^verbatim>\<open>PIXI.Container\<close>: index 0 is drawn first, behind all
  others. A duck's sprite is the duck object itself, so it is named by its reference.
\<close>

datatype node = Tree | Background | DogSprite | FlashScreen | HudSprite | DuckSprite ref

text \<open>
  The container operations of pixi.js that the stage calls. \<^verbatim>\<open>addChild\<close> and
  \<^verbatim>\<open>addChildAt\<close> detach the child from its parent first; the stage calls
  \<^verbatim>\<open>addChildAt\<close> with index 0 only, which is never out of bounds. \<^verbatim>\<open>removeChild\<close>
  of an object that is not a child does nothing. \<^verbatim>\<open>setChildIndex\<close> throws when the
  object is not a child or the index is not one of a child: \<open>None\<close>.
\<close>

definition addChild :: "node \<Rightarrow> node list \<Rightarrow> node list" where
  "addChild c cs = remove1 c cs @ [c]"

definition addChildAt :: "node \<Rightarrow> nat \<Rightarrow> node list \<Rightarrow> node list" where
  "addChildAt c i cs = (let cs' = remove1 c cs in take i cs' @ c # drop i cs')"

definition removeChild :: "node \<Rightarrow> node list \<Rightarrow> node list" where
  "removeChild c cs = remove1 c cs"

definition setChildIndex :: "node \<Rightarrow> nat \<Rightarrow> node list \<Rightarrow> node list option" where
  "setChildIndex c i cs =
     (if i < length cs \<and> c \<in> set cs
      then Some (let cs' = remove1 c cs in take i cs' @ c # drop i cs')
      else None)"

text \<open>
  \<^verbatim>\<open>BPromise.all(ps).then(f)\<close> of bluebird: a continuation that waits for the promises
  \<open>waits\<close>, then runs \<open>handler\<close> and resolves the promise \<open>derived\<close>, which is the one
  the expression returns. Promises are named by their index in the list \<open>promises\<close> of
  the state, whose entry is \<open>True\<close> once the promise is resolved.
\<close>

record join =
  waits :: "pid list"
  handler :: callback
  derived :: pid

section \<open>The stage\<close>

text \<open>
  The fields of a \<^verbatim>\<open>Stage\<close> object, followed by the part of the world its methods read
  and write: the duck objects (\<open>heap\<close>, a duck's reference is its index), the timers
  set by \<^verbatim>\<open>_delay\<close>, the promises and the waiting continuations.
\<close>

record stage =
  spritesheet :: string
  interactive :: bool
  children :: "node list"
  scale :: "jsnum point"
  ducks :: "ref list"
  dog :: dog
  flashVisible :: bool
  heap :: "duck list"
  timers :: "(nat \<times> callback) list"
  promises :: "bool list"
  joins :: "join list"

text \<open>\<^verbatim>\<open>scaleToWindow\<close>, lines 85-87; the two arguments are what \<^verbatim>\<open>window.innerWidth\<close>
  and \<^verbatim>\<open>window.innerHeight\<close> read, whole numbers of pixels (a \<^verbatim>\<open>long\<close> of the DOM, so
  below \<open>2 ^ 31\<close> and a double).\<close>

definition scaleToWindow :: "nat \<Rightarrow> nat \<Rightarrow> stage \<Rightarrow> stage" where
  "scaleToWindow innerWidth innerHeight s =
     s\<lparr>scale := Point (js_div (num (real innerWidth)) (num MAX_X))
                       (js_div (num (real innerHeight)) (num MAX_Y))\<rparr>"

text \<open>\<^verbatim>\<open>_setStage\<close>, lines 95-109.\<close>

definition setStage :: "stage \<Rightarrow> stage" where
  "setStage s =
     s\<lparr>children :=
         addChild HudSprite (addChild FlashScreen (addChild DogSprite
           (addChild Background (addChild Tree (children s)))))\<rparr>"

text \<open>The constructor, lines 46-63. A new container has no children and scale (1, 1).\<close>

definition Stage :: "string \<Rightarrow> nat \<Rightarrow> nat \<Rightarrow> stage" where
  "Stage sheet innerWidth innerHeight =
     scaleToWindow innerWidth innerHeight (setStage
       \<lparr>spritesheet = sheet, interactive = True, children = [], scale = Point (num 1) (num 1),
        ducks = [], dog = (new_Dog DOG_DOWN DOG_UP)\<lparr>dog_visible := False\<rparr>,
        flashVisible = False, heap = [], timers = [], promises = [], joins = []\<rparr>)"

subsection \<open>\<^verbatim>\<open>addDucks\<close>, lines 146-165\<close>

text \<open>The body of the loop for one value of \<open>i\<close>. \<^verbatim>\<open>new Duck\<close> allocates the next
  reference.\<close>

definition addDuck :: "nat \<Rightarrow> real \<Rightarrow> stage \<Rightarrow> stage" where
  "addDuck i speed s =
     (let duckColor = (if i mod 2 = 0 then ''red'' else ''black'');
          r = length (heap s);
          newDuck = (new_Duck duckColor)\<lparr>position := Point (px DUCK_ORIGIN) (py DUCK_ORIGIN)\<rparr>;
          s1 = s\<lparr>heap := heap s @ [newDuck]\<rparr>;
          s2 = s1\<lparr>children := addChildAt (DuckSprite r) 0 (children s1)\<rparr>;
          s3 = s2\<lparr>heap := (heap s2)[r := randomFlight speed (heap s2 ! r)]\<rparr>
      in s3\<lparr>ducks := ducks s3 @ [r]\<rparr>)"

function addDucks_from :: "nat \<Rightarrow> nat \<Rightarrow> real \<Rightarrow> stage \<Rightarrow> stage" where
  "addDucks_from i numDucks speed s =
     (if i < numDucks then addDucks_from (Suc i) numDucks speed (addDuck i speed s) else s)"
  by pat_completeness auto
termination
  by (relation "measure (\<lambda>(i, numDucks, speed, s). numDucks - i)") auto

definition addDucks :: "nat \<Rightarrow> real \<Rightarrow> stage \<Rightarrow> stage" where
  "addDucks numDucks speed s = addDucks_from 0 numDucks speed s"

subsection \<open>\<^verbatim>\<open>shotsFired\<close>, lines 174-197\<close>

text \<open>The condition of line 188, and the loop of lines 186-195 over the roster, on
  the duck objects \<open>h\<close> and the counter \<open>ducksShot\<close>.\<close>

definition isHit :: "jsnum point \<Rightarrow> duck \<Rightarrow> bool" where
  "isHit clickPoint duck =
     (alive duck \<and> js_less (pointDistance (position duck) clickPoint) 60)"

fun shoot :: "jsnum point \<Rightarrow> ref list \<Rightarrow> duck list \<Rightarrow> nat \<Rightarrow> duck list \<times> nat" where
  "shoot clickPoint [] h ducksShot = (h, ducksShot)"
| "shoot clickPoint (r # rs) h ducksShot =
     (let duck = h ! r in
      if isHit clickPoint duck
      then shoot clickPoint rs (h[r := timeline_add DogRetrieve (shot duck)]) (Suc ducksShot)
      else shoot clickPoint rs h ducksShot)"

text \<open>The method returns the count; the click point is the caller's object, updated
  in place, so its new value is returned with the new state.\<close>

definition shotsFired :: "jsnum point \<Rightarrow> stage \<Rightarrow> nat \<times> jsnum point \<times> stage" where
  "shotsFired clickPoint s =
     (let s1 = s\<lparr>flashVisible := True\<rparr>;
          s2 = s1\<lparr>timers := timers s1 @ [(FLASH_MS, FlashOff)]\<rparr>;
          p1 = clickPoint\<lparr>px := js_div (px clickPoint) (px (scale s2))\<rparr>;
          p2 = p1\<lparr>py := js_div (py p1) (py (scale s2))\<rparr>;
          (h, ducksShot) = shoot p2 (ducks s2) (heap s2) 0
      in (ducksShot, p2, s2\<lparr>heap := h\<rparr>))"

subsection \<open>\<^verbatim>\<open>cleanUpDucks\<close>, lines 229-234\<close>

fun removeDucks :: "ref list \<Rightarrow> node list \<Rightarrow> node list" where
  "removeDucks [] cs = cs"
| "removeDucks (r # rs) cs = removeDucks rs (removeChild (DuckSprite r) cs)"

definition cleanUpDucks :: "stage \<Rightarrow> stage" where
  "cleanUpDucks s = s\<lparr>children := removeDucks (ducks s) (children s), ducks := []\<rparr>"

subsection \<open>The queries, lines 242-276\<close>

text \<open>lodash's \<^verbatim>\<open>_.some\<close> on an array.\<close>

fun lodash_some :: "'a list \<Rightarrow> ('a \<Rightarrow> bool) \<Rightarrow> bool" where
  "lodash_some [] f = False"
| "lodash_some (a # as) f = (if f a then True else lodash_some as f)"

text \<open>\<^verbatim>\<open>a || b\<close> on booleans: the left operand when it is true, else the right one.\<close>

definition js_or :: "bool \<Rightarrow> bool \<Rightarrow> bool" where
  "js_or a b = (if a then a else b)"

definition ducksAlive :: "stage \<Rightarrow> bool" where
  "ducksAlive s = lodash_some (ducks s) (\<lambda>r. alive (heap s ! r))"

definition ducksActive :: "stage \<Rightarrow> bool" where
  "ducksActive s = lodash_some (ducks s) (\<lambda>r. duck_isActive (heap s ! r))"

definition dogActive :: "stage \<Rightarrow> bool" where
  "dogActive s = dog_isActive (dog s)"

definition isActive :: "stage \<Rightarrow> bool" where
  "isActive s = js_or (js_or (dogActive s) (ducksAlive s)) (ducksActive s)"

subsection \<open>Promises and callbacks\<close>

text \<open>\<^verbatim>\<open>new BPromise.pending()\<close> allocates an unresolved promise; \<^verbatim>\<open>resolve()\<close> on its
  resolver settles it, and settles it again to no effect.\<close>

definition pending :: "stage \<Rightarrow> pid \<times> stage" where
  "pending s = (length (promises s), s\<lparr>promises := promises s @ [False]\<rparr>)"

definition resolve :: "pid \<Rightarrow> stage \<Rightarrow> stage" where
  "resolve p s = s\<lparr>promises := (promises s)[p := True]\<rparr>"

definition resolved :: "stage \<Rightarrow> pid \<Rightarrow> bool" where
  "resolved s p = (p < length (promises s) \<and> promises s ! p)"

text \<open>\<^verbatim>\<open>BPromise.all(ps).then(f)\<close>: the continuation is queued, its promise returned.\<close>

definition all_then :: "pid list \<Rightarrow> callback \<Rightarrow> stage \<Rightarrow> pid \<times> stage" where
  "all_then ps f s =
     (let (q, s1) = pending s
      in (q, s1\<lparr>joins := joins s1 @ [\<lparr>waits = ps, handler = f, derived = q\<rparr>]\<rparr>))"

text \<open>What each closure of the file does when it is called. In \<open>FindComplete\<close> an
  exception of \<^verbatim>\<open>setChildIndex\<close> leaves the promise unresolved.\<close>

fun run_callback :: "callback \<Rightarrow> stage \<Rightarrow> stage" where
  "run_callback FlashOff s = s\<lparr>flashVisible := False\<rparr>"
| "run_callback DogRetrieve s = s\<lparr>dog := retrieve (dog s)\<rparr>"
| "run_callback (FindComplete animationPromise) s =
     (case setChildIndex DogSprite 0 (children s) of
        None \<Rightarrow> s
      | Some cs \<Rightarrow> resolve animationPromise (s\<lparr>children := cs\<rparr>))"
| "run_callback (Resolve duckAnimation) s = resolve duckAnimation s"
| "run_callback CleanUp s = cleanUpDucks s"

subsection \<open>\<^verbatim>\<open>preLevelAnimation\<close>, lines 117-138\<close>

definition preLevelAnimation :: "stage \<Rightarrow> pid \<times> stage" where
  "preLevelAnimation s =
     (let (animationPromise, s1) = pending s;
          s2 = cleanUpDucks s1;
          s3 = s2\<lparr>dog := find_dog (FindComplete animationPromise)
                           (sniff DOG_SNIFF_START DOG_SNIFF_END (dog s2))\<rparr>
      in (animationPromise, s3))"

subsection \<open>\<^verbatim>\<open>flyAway\<close>, lines 204-223\<close>

text \<open>The loop of lines 209-220, with the array \<open>duckPromises\<close>.\<close>

fun flee :: "ref list \<Rightarrow> stage \<Rightarrow> pid list \<Rightarrow> stage \<times> pid list" where
  "flee [] s duckPromises = (s, duckPromises)"
| "flee (r # rs) s duckPromises =
     (if alive (heap s ! r)
      then (let (duckAnimation, s1) = pending s;
                s2 = s1\<lparr>heap := (heap s1)[r := stopAndClearTimeline (heap s1 ! r)]\<rparr>;
                s3 = s2\<lparr>heap := (heap s2)[r := flyTo FLEE_POINT (Resolve duckAnimation) (heap s2 ! r)]\<rparr>
            in flee rs s3 (duckPromises @ [duckAnimation]))
      else flee rs s duckPromises)"

definition flyAway :: "stage \<Rightarrow> pid \<times> stage" where
  "flyAway s =
     (let s1 = s\<lparr>dog := laugh (dog s)\<rparr>;
          (s2, duckPromises) = flee (ducks s1) s1 []
      in all_then duckPromises CleanUp s2)"

section \<open>The environment: animation clock, timers and promise scheduler\<close>

text \<open>
  The stage is driven by one thread. Between two calls of its methods the host runs
  callbacks, one event at a time:
  \<^item> \<open>DuckStep r p\<close>: the front entry of duck \<open>r\<close>'s timeline completes;
  \<^item> \<open>DogStep\<close>: the front behaviour of the dog completes;
  \<^item> \<open>Timer\<close>: the oldest timer fires;
  \<^item> \<open>Tick\<close>: the promise scheduler runs.
\<close>

datatype event = DuckStep ref "real point" | DogStep | Timer | Tick

text \<open>
  Modelled from the spec: how the timeline of a \<^verbatim>\<open>Duck\<close> and the behaviours of the
  \<^verbatim>\<open>Dog\<close> advance (neither class is part of the sources at hand). Entries complete
  in order, one at a time, and a completed entry leaves the queue. An animation leaves
  the duck at a position: \<open>p\<close> for a random flight or the fall, the target point for
  \<^verbatim>\<open>flyTo\<close>, which then calls its \<^verbatim>\<open>onComplete\<close>. A deferred action is called when
  its turn comes. The dog's \<^verbatim>\<open>find\<close> calls its \<^verbatim>\<open>onComplete\<close> when it completes. A duck
  that is no longer on the roster still advances: the roster holds references only.
\<close>

fun entry_done :: "entry \<Rightarrow> ref \<Rightarrow> real point \<Rightarrow> stage \<Rightarrow> stage" where
  "entry_done (RandomFlight speed) r p s = s\<lparr>heap := (heap s)[r := (heap s ! r)\<lparr>position := p\<rparr>]\<rparr>"
| "entry_done Death r p s = s\<lparr>heap := (heap s)[r := (heap s ! r)\<lparr>position := p\<rparr>]\<rparr>"
| "entry_done (FlyTo q onComplete) r p s =
     run_callback onComplete (s\<lparr>heap := (heap s)[r := (heap s ! r)\<lparr>position := q\<rparr>]\<rparr>)"
| "entry_done (Call f) r p s = run_callback f s"

definition duckStep :: "ref \<Rightarrow> real point \<Rightarrow> stage \<Rightarrow> stage" where
  "duckStep r p s =
     (if r < length (heap s)
      then (case timeline (heap s ! r) of
              [] \<Rightarrow> s
            | e # es \<Rightarrow> entry_done e r p (s\<lparr>heap := (heap s)[r := (heap s ! r)\<lparr>timeline := es\<rparr>]\<rparr>))
      else s)"

definition dogStep :: "stage \<Rightarrow> stage" where
  "dogStep s =
     (case script (dog s) of
        [] \<Rightarrow> s
      | b # bs \<Rightarrow>
          (let s1 = s\<lparr>dog := (dog s)\<lparr>script := bs\<rparr>\<rparr>
           in case b of Find onComplete \<Rightarrow> run_callback onComplete s1 | _ \<Rightarrow> s1))"

text \<open>lodash's \<^verbatim>\<open>_.delay\<close>: the oldest timer fires and its function is called. All
  timers of the stage have the same delay.\<close>

definition timerStep :: "stage \<Rightarrow> stage" where
  "timerStep s =
     (case timers s of
        [] \<Rightarrow> s
      | (ms, f) # ts \<Rightarrow> run_callback f (s\<lparr>timers := ts\<rparr>))"

text \<open>
  bluebird's scheduler: the waiting continuations are visited in the order of their
  registration; one whose promises have all been resolved runs its handler and then
  resolves its own promise, the others keep waiting. A handler never runs inside the
  call that registers it, also when it waits for no promise at all.
\<close>

definition ready :: "stage \<Rightarrow> join \<Rightarrow> bool" where
  "ready s j = list_all (resolved s) (waits j)"

fun settle :: "join list \<Rightarrow> stage \<Rightarrow> stage" where
  "settle [] s = s"
| "settle (j # js) s =
     (if ready s j
      then settle js (resolve (derived j) (run_callback (handler j) s))
      else settle js (s\<lparr>joins := joins s @ [j]\<rparr>))"

definition tick :: "stage \<Rightarrow> stage" where
  "tick s = settle (joins s) (s\<lparr>joins := []\<rparr>)"

fun step :: "event \<Rightarrow> stage \<Rightarrow> stage" where
  "step (DuckStep r p) s = duckStep r p s"
| "step DogStep s = dogStep s"
| "step Timer s = timerStep s"
| "step Tick s = tick s"

fun run :: "event list \<Rightarrow> stage \<Rightarrow> stage" where
  "run [] s = s"
| "run (e # es) s = run es (step e s)"

section \<open>Well-formed states\<close>

text \<open>
  What the constructor establishes and every method and event keeps: the roster holds
  distinct references to allocated ducks; a display object is a child at most once and
  the dog is a child; a duck's timeline holds animations, flights whose completion
  resolves an allocated promise (line 216) and retrieve triggers (lines 191-193); the
  dog's \<^verbatim>\<open>find\<close> completes into the callback of lines 129-132 for an allocated promise;
  every timer hides the flash; every continuation is a teardown waiting for allocated
  promises.
\<close>

fun entry_ok :: "nat \<Rightarrow> entry \<Rightarrow> bool" where
  "entry_ok n (RandomFlight speed) = True"
| "entry_ok n Death = True"
| "entry_ok n (FlyTo q (Resolve p)) = (p < n)"
| "entry_ok n (Call DogRetrieve) = True"
| "entry_ok n e = False"

fun behaviour_ok :: "nat \<Rightarrow> behaviour \<Rightarrow> bool" where
  "behaviour_ok n (Find (FindComplete p)) = (p < n)"
| "behaviour_ok n (Find f) = False"
| "behaviour_ok n b = True"

definition join_ok :: "nat \<Rightarrow> join \<Rightarrow> bool" where
  "join_ok n j = (list_all (\<lambda>p. p < n) (waits j) \<and> handler j = CleanUp \<and> derived j < n)"

definition roster_ok :: "stage \<Rightarrow> bool" where
  "roster_ok s = (distinct (ducks s) \<and> list_all (\<lambda>r. r < length (heap s)) (ducks s))"

definition stage_ok :: "stage \<Rightarrow> bool" where
  "stage_ok s =
     (roster_ok s \<and> distinct (children s) \<and> DogSprite \<in> set (children s)
      \<and> list_all (\<lambda>d. list_all (entry_ok (length (promises s))) (timeline d)) (heap s)
      \<and> list_all (behaviour_ok (length (promises s))) (script (dog s))
      \<and> list_all (\<lambda>(ms, f). f = FlashOff) (timers s)
      \<and> list_all (join_ok (length (promises s))) (joins s))"

text \<open>The states the stage can be in: the constructor's, and what a method call or an
  event of the host makes of such a state.\<close>

inductive reachable :: "stage \<Rightarrow> bool" where
  constructed: "reachable (Stage sheet w h)"
| rescaled: "reachable s \<Longrightarrow> reachable (scaleToWindow w h s)"
| spawned: "reachable s \<Longrightarrow> reachable (addDucks n speed s)"
| fired: "reachable s \<Longrightarrow> reachable (snd (snd (shotsFired P s)))"
| intro: "reachable s \<Longrightarrow> reachable (snd (preLevelAnimation s))"
| fled: "reachable s \<Longrightarrow> reachable (snd (flyAway s))"
| cleaned: "reachable s \<Longrightarrow> reachable (cleanUpDucks s)"
| event: "reachable s \<Longrightarrow> reachable (step e s)"

text \<open>The effect of lines 212-218 on a live duck \<open>a\<close> and the state, \<open>p\<close> being the
  promise allocated on line 212.\<close>

definition flee_duck :: "pid \<Rightarrow> ref \<Rightarrow> stage \<Rightarrow> stage" where
  "flee_duck p a s =
     s\<lparr>promises := promises s @ [False],
       heap := (heap s)[a := flyTo FLEE_POINT (Resolve p) (stopAndClearTimeline (heap s ! a))]\<rparr>"

text \<open>The sprites of the ducks \<open>R\<close> are on their way out: each of these ducks is still
  on the roster or its sprite is no longer a child.\<close>

definition sprites_gone :: "ref set \<Rightarrow> stage \<Rightarrow> bool" where
  "sprites_gone R t =
     (distinct (children t) \<and> (\<forall>r\<in>R. r \<in> set (ducks t) \<or> DuckSprite r \<notin> set (children t)))"

text \<open>Every timeline entry of every duck names allocated promises only.\<close>

definition heap_ok :: "stage \<Rightarrow> bool" where
  "heap_ok s = list_all (\<lambda>d. list_all (entry_ok (length (promises s))) (timeline d)) (heap s)"

section \<open>The invariant of an outstanding flee sequence\<close>




section \<open>The game and the host interleaved\<close>

text \<open>
  Between two events of the host the game may call any method of the stage
  (\<^verbatim>\<open>scaleToWindow\<close>, \<^verbatim>\<open>preLevelAnimation\<close>, \<^verbatim>\<open>addDucks\<close>, \<^verbatim>\<open>shotsFired\<close>, \<^verbatim>\<open>flyAway\<close>,
  \<^verbatim>\<open>cleanUpDucks\<close>) with any arguments. An action is an event of the host or such a call;
  the values the calls return are dropped.
\<close>

text \<open>
  Modelled from the spec: the game (not part of the sources at hand) listens for the
  resize event of the window and calls \<^verbatim>\<open>scaleToWindow\<close> when it occurs. The action
  \<open>ScaleToWindow w h\<close> is a resize to a window of \<open>w\<close> by \<open>h\<close> pixels.
\<close>

datatype action =
    Host event
  | AddDucks nat real
  | ShotsFired "jsnum point"
  | PreLevelAnimation
  | FlyAway
  | ScaleToWindow nat nat
  | CleanUpDucks

fun act :: "action \<Rightarrow> stage \<Rightarrow> stage" where
  "act (Host e) s = step e s"
| "act (AddDucks numDucks speed) s = addDucks numDucks speed s"
| "act (ShotsFired clickPoint) s = snd (snd (shotsFired clickPoint s))"
| "act PreLevelAnimation s = snd (preLevelAnimation s)"
| "act FlyAway s = snd (flyAway s)"
| "act (ScaleToWindow innerWidth innerHeight) s = scaleToWindow innerWidth innerHeight s"
| "act CleanUpDucks s = cleanUpDucks s"

fun acts :: "action list \<Rightarrow> stage \<Rightarrow> stage" where
  "acts [] s = s"
| "acts (a # as) s = acts as (act a s)"

text \<open>The entries of a timeline and the behaviours of the dog whose completion resolves
  the promise \<open>q\<close>.\<close>

fun entry_names :: "pid \<Rightarrow> entry \<Rightarrow> bool" where
  "entry_names q (FlyTo x (Resolve p)) = (p = q)"
| "entry_names q e = False"

fun behaviour_names :: "pid \<Rightarrow> behaviour \<Rightarrow> bool" where
  "behaviour_names q (Find (FindComplete p)) = (p = q)"
| "behaviour_names q b = False"






text \<open>
  What holds of the promise \<open>p\<close> that \<^verbatim>\<open>preLevelAnimation\<close> returned, whatever the game
  calls afterwards: no timeline entry and no continuation resolves \<open>p\<close> (\<open>quiet\<close>), and
  the dog's queue has one of three shapes. Either the \<^verbatim>\<open>sniff\<close> and the \<^verbatim>\<open>find\<close> of the
  call are both queued, next to each other, and nothing else in the queue resolves \<open>p\<close>
  (\<open>sniffing\<close>); or that \<^verbatim>\<open>find\<close> is at the front (\<open>finding\<close>); or nothing in the queue
  resolves \<open>p\<close>.
\<close>

definition quiet :: "pid \<Rightarrow> stage \<Rightarrow> bool" where
  "quiet p t =
     (stage_ok t \<and> p < length (promises t)
      \<and> list_all (\<lambda>d. list_all (\<lambda>e. \<not> entry_names p e) (timeline d)) (heap t)
      \<and> list_all (\<lambda>j. derived j \<noteq> p) (joins t))"

definition quiet_keeps :: "pid \<Rightarrow> stage \<Rightarrow> stage \<Rightarrow> bool" where
  "quiet_keeps p t t' = (quiet p t \<longrightarrow> quiet p t' \<and> resolved t' p = resolved t p)"

definition sniffing :: "pid \<Rightarrow> behaviour list \<Rightarrow> bool" where
  "sniffing p bs =
     (\<exists>pre post. bs = pre @ Sniff DOG_SNIFF_START DOG_SNIFF_END # Find (FindComplete p) # post
        \<and> list_all (\<lambda>b. \<not> behaviour_names p b) pre
        \<and> list_all (\<lambda>b. \<not> behaviour_names p b) post)"

definition finding :: "pid \<Rightarrow> behaviour list \<Rightarrow> bool" where
  "finding p bs =
     (\<exists>post. bs = Find (FindComplete p) # post \<and> list_all (\<lambda>b. \<not> behaviour_names p b) post)"

definition intro_inv :: "pid \<Rightarrow> stage \<Rightarrow> bool" where
  "intro_inv p t =
     (quiet p t
      \<and> (sniffing p (script (dog t)) \<or> finding p (script (dog t))
          \<or> list_all (\<lambda>b. \<not> behaviour_names p b) (script (dog t))))"

section \<open>Example states\<close>

text \<open>
  A stage in a window of 800 by 600 pixels: one duck spawned (\<open>W1\<close>), that duck shot at
  the spawn point (\<open>W2\<close>), a second duck spawned after the shot (\<open>W3\<close>, one dead and one
  live duck).
\<close>

definition W1 :: stage where "W1 = addDucks 1 5 (Stage [] 800 600)"

definition W2 :: stage where "W2 = snd (snd (shotsFired (Point (num 400) (num 600)) W1))"

definition W3 :: stage where "W3 = addDucks 1 5 W2"

section \<open>Helper lemmas\<close>

subsection \<open>Rounding and division\<close>

lemma rne_error: "\<bar>of_int (rne x) - x\<bar> \<le> 1 / 2"
  unfolding rne_def Let_def by (auto simp add: abs_if) linarith+

lemma rne_nearest: "\<bar>of_int (rne x) - x\<bar> \<le> \<bar>of_int c - x\<bar>"
proof -
  have "c \<le> \<lfloor>x\<rfloor> \<or> \<lfloor>x\<rfloor> + 1 \<le> c" by linarith
  then show ?thesis
  proof
    assume "c \<le> \<lfloor>x\<rfloor>"
    then have "of_int c \<le> (of_int \<lfloor>x\<rfloor> :: real)" by simp
    then show ?thesis unfolding rne_def Let_def by (auto simp add: abs_if) linarith+
  next
    assume "\<lfloor>x\<rfloor> + 1 \<le> c"
    then have "of_int \<lfloor>x\<rfloor> + 1 \<le> (of_int c :: real)" by linarith
    then show ?thesis unfolding rne_def Let_def by (auto simp add: abs_if) linarith+
  qed
qed

lemma rne_tie: "x - of_int \<lfloor>x\<rfloor> = 1 / 2 \<Longrightarrow> even (rne x)"
  by (simp add: rne_def Let_def)

lemma bitlen_floor:
  assumes "2 ^ (52 + k) \<le> y" "y < 2 ^ (53 + k)"
  shows "bitlen \<lfloor>y::real\<rfloor> = 53 + int k"
proof -
  have 1: "(2::int) ^ (52 + k) \<le> \<lfloor>y\<rfloor>"
    using assms(1) by (simp add: le_floor_iff)
  have 2: "\<lfloor>y\<rfloor> < (2::int) ^ (53 + k)"
    using assms(2) by (simp add: floor_less_iff)
  have "bitlen \<lfloor>y\<rfloor> \<le> 53 + int k"
    using 2 by (simp add: bitlen_le_iff_power nat_add_distrib)
  moreover have "53 + int k \<le> bitlen \<lfloor>y\<rfloor>"
    using 1 by (simp add: bitlen_ge_iff_power nat_add_distrib)
  ultimately show ?thesis by simp
qed

lemma bitlen_low:
  assumes "53 \<le> bitlen \<lfloor>y::real\<rfloor>"
  shows "2 ^ (52 + nat (bitlen \<lfloor>y\<rfloor> - 53)) \<le> y"
proof -
  define k where "k = nat (bitlen \<lfloor>y\<rfloor> - 53)"
  have "bitlen \<lfloor>y\<rfloor> = 53 + int k" using assms by (simp add: k_def)
  then have "(2::int) ^ (52 + k) \<le> \<lfloor>y\<rfloor>"
    using bitlen_ge_iff_power[of "53 + int k" "\<lfloor>y\<rfloor>"] by (simp add: nat_add_distrib)
  then show ?thesis unfolding k_def[symmetric] by (simp add: le_floor_iff)
qed

text \<open>Evaluation: the binade of the quotient, then the rounding of the mantissa.\<close>

lemma round64_normal:
  assumes "2 ^ (52 + k) \<le> x * 2 ^ 1074" "x * 2 ^ 1074 < 2 ^ (53 + k)"
  shows "round64 x = of_int (rne (x * 2 ^ 1074 / 2 ^ k)) * 2 ^ k / 2 ^ 1074"
  using bitlen_floor[OF assms] by (simp add: round64_def round_grid_def MIN_VALUE_def Let_def)

lemma round64_low:
  assumes "x * 2 ^ 1074 < 2 ^ 53"
  shows "round64 x = of_int (rne (x * 2 ^ 1074)) / 2 ^ 1074"
proof -
  have "\<lfloor>x * 2 ^ 1074\<rfloor> < (2::int) ^ 53"
    using assms by (simp add: floor_less_iff)
  then have "bitlen \<lfloor>x * 2 ^ 1074\<rfloor> \<le> 53"
    by (simp add: bitlen_le_iff_power)
  then show ?thesis by (simp add: round64_def round_grid_def MIN_VALUE_def Let_def)
qed

text \<open>Rounding is to a nearest point of the grid.\<close>

lemma scaled_abs: "0 < (c::real) \<Longrightarrow> \<bar>a - b\<bar> * c = \<bar>a * c - b * c\<bar>"
  by (simp add: abs_mult flip: left_diff_distrib)

lemma round_grid_nearest:
  assumes u: "0 < u" and d: "on_grid u d"
  shows "\<bar>round_grid u x - x\<bar> \<le> \<bar>d - x\<bar>"
proof -
  define y where "y = x / u"
  define k where "k = nat (bitlen \<lfloor>y\<rfloor> - 53)"
  define r where "r = of_int (rne (y / 2 ^ k)) * (2::real) ^ k"
  obtain n j where nj: "d = real n * 2 ^ j * u" "n < 2 ^ 53"
    using d by (auto simp add: on_grid_def)
  define e where "e = real n * 2 ^ j"
  have yk: "y / 2 ^ k * 2 ^ k = y" by simp
  have mult: "\<bar>r - y\<bar> \<le> \<bar>of_int c * 2 ^ k - y\<bar>" for c
  proof -
    have "\<bar>of_int (rne (y / 2 ^ k)) - y / 2 ^ k\<bar> * 2 ^ k \<le> \<bar>of_int c - y / 2 ^ k\<bar> * 2 ^ k"
      using rne_nearest[of "y / 2 ^ k" c] by (rule mult_right_mono) simp
    then show ?thesis
      unfolding scaled_abs[of "2 ^ k", simplified] yk r_def .
  qed
  have "\<bar>r - y\<bar> \<le> \<bar>e - y\<bar>"
  proof (cases "k \<le> j")
    case True
    then have "e = of_int (int n * 2 ^ (j - k)) * 2 ^ k"
      by (simp add: e_def flip: power_add)
    then show ?thesis using mult[of "int n * 2 ^ (j - k)"] by simp
  next
    case False
    then have jk: "j < k" by simp
    then have low: "(2::real) ^ (52 + k) \<le> y"
      using bitlen_low[of y] by (simp add: k_def)
    have "real n < 2 ^ 53" using nj(2) by (metis of_nat_less_iff of_nat_numeral of_nat_power)
    then have "e < 2 ^ 53 * 2 ^ j" unfolding e_def by (rule mult_strict_right_mono) simp
    also have "(2::real) ^ 53 * 2 ^ j = 2 ^ (53 + j)" by (simp only: power_add)
    also have "(2::real) ^ (53 + j) \<le> 2 ^ (52 + k)"
      using jk by (intro power_increasing) simp_all
    finally have el: "e < 2 ^ (52 + k)" .
    have "\<bar>r - y\<bar> \<le> \<bar>of_int (2 ^ 52) * 2 ^ k - y\<bar>" by (rule mult)
    also have "\<dots> = y - 2 ^ (52 + k)" using low by (simp add: power_add)
    also have "\<dots> \<le> \<bar>e - y\<bar>" using el low by simp
    finally show ?thesis .
  qed
  then have "\<bar>r - y\<bar> * u \<le> \<bar>e - y\<bar> * u" using u by (simp add: mult_right_mono)
  moreover have "y * u = x" using u by (simp add: y_def)
  moreover have "round_grid u x = r * u" by (simp add: round_grid_def Let_def r_def k_def y_def)
  ultimately show ?thesis using u by (simp add: scaled_abs e_def nj(1))
qed

lemma round_grid_relative:
  assumes u: "0 < u" and x: "2 ^ 52 * u \<le> x"
  shows "\<bar>round_grid u x - x\<bar> \<le> x / 2 ^ 53"
proof -
  define y where "y = x / u"
  define k where "k = nat (bitlen \<lfloor>y\<rfloor> - 53)"
  define r where "r = of_int (rne (y / 2 ^ k)) * (2::real) ^ k"
  have yk: "y / 2 ^ k * 2 ^ k = y" by simp
  have "2 ^ 52 \<le> y" using u x by (simp add: y_def pos_le_divide_eq)
  then have "(2::int) ^ 52 \<le> \<lfloor>y\<rfloor>" by (simp add: le_floor_iff)
  then have "53 \<le> bitlen \<lfloor>y\<rfloor>"
    using bitlen_ge_iff_power[of 53 "\<lfloor>y\<rfloor>"] by simp
  then have low: "(2::real) ^ (52 + k) \<le> y" unfolding k_def by (rule bitlen_low)
  have "\<bar>of_int (rne (y / 2 ^ k)) - y / 2 ^ k\<bar> * 2 ^ k \<le> 1 / 2 * 2 ^ k"
    using rne_error[of "y / 2 ^ k"] by (rule mult_right_mono) simp
  then have "\<bar>r - y\<bar> \<le> 1 / 2 * 2 ^ k"
    unfolding scaled_abs[of "2 ^ k", simplified] yk r_def .
  also have "1 / 2 * (2::real) ^ k = 2 ^ (52 + k) / 2 ^ 53"
    by (simp only: power_add) simp
  also have "\<dots> \<le> y / 2 ^ 53" using low by (rule divide_right_mono) simp
  finally have "\<bar>r - y\<bar> * u \<le> y / 2 ^ 53 * u" using u by (simp add: mult_right_mono)
  moreover have "y * u = x" using u by (simp add: y_def)
  moreover have "round_grid u x = r * u" by (simp add: round_grid_def Let_def r_def k_def y_def)
  ultimately show ?thesis using u by (simp add: scaled_abs)
qed

lemma MIN_VALUE_pos: "0 < MIN_VALUE"
  by (simp add: MIN_VALUE_def)

lemma round64_nearest: "double d \<Longrightarrow> \<bar>round64 x - x\<bar> \<le> \<bar>d - x\<bar>"
  unfolding round64_def double_def using MIN_VALUE_pos by (rule round_grid_nearest)

lemma round64_relative: "2 ^ 52 * MIN_VALUE \<le> x \<Longrightarrow> \<bar>round64 x - x\<bar> \<le> x / 2 ^ 53"
  unfolding round64_def using MIN_VALUE_pos by (rule round_grid_relative)

lemma round64_double: "0 \<le> x \<Longrightarrow> double (round64 x)"
proof -
  assume x: "0 \<le> x"
  define y where "y = x / MIN_VALUE"
  define k where "k = nat (bitlen \<lfloor>y\<rfloor> - 53)"
  have y0: "0 \<le> y" using x MIN_VALUE_pos by (simp add: y_def)
  have n0: "0 \<le> rne (y / 2 ^ k)"
  proof -
    have "0 \<le> y / 2 ^ k" using y0 by simp
    then show ?thesis unfolding rne_def Let_def by (auto simp add: abs_if)
  qed
  have up: "rne (y / 2 ^ k) \<le> 2 ^ 53"
  proof -
    have "y / 2 ^ k < 2 ^ 53"
    proof (cases "bitlen \<lfloor>y\<rfloor> \<le> 53")
      case True
      then have "\<lfloor>y\<rfloor> < 2 ^ 53" using bitlen_le_iff_power[of "\<lfloor>y\<rfloor>" 53] by simp
      then have "y < 2 ^ 53" by (simp add: floor_less_iff)
      moreover have "k = 0" using True by (simp add: k_def)
      ultimately show ?thesis by simp
    next
      case False
      then have b: "bitlen \<lfloor>y\<rfloor> = 53 + int k" by (simp add: k_def)
      then have "\<lfloor>y\<rfloor> < 2 ^ (53 + k)"
        using bitlen_le_iff_power[of "\<lfloor>y\<rfloor>" "53 + int k"] by (simp add: nat_add_distrib)
      then have "y < 2 ^ (53 + k)" by (simp add: floor_less_iff)
      then have "y < 2 ^ 53 * 2 ^ k" by (simp only: power_add)
      then show ?thesis by (simp add: pos_divide_less_eq)
    qed
    then have "of_int (rne (y / 2 ^ k)) < (2::real) ^ 53 + 1"
      using rne_error[of "y / 2 ^ k"] by (simp add: abs_if split: if_splits)
    then have "rne (y / 2 ^ k) < 2 ^ 53 + 1"
      by (metis (mono_tags, opaque_lifting) of_int_1 of_int_add of_int_less_iff of_int_numeral of_int_power)
    then show ?thesis by simp
  qed
  have r: "round64 x = of_int (rne (y / 2 ^ k)) * 2 ^ k * MIN_VALUE"
    by (simp add: round64_def round_grid_def Let_def y_def k_def)
  show ?thesis
  proof (cases "rne (y / 2 ^ k) = 2 ^ 53")
    case True
    have "round64 x = real 1 * 2 ^ (53 + k) * MIN_VALUE"
      unfolding r True by (simp only: power_add) simp
    moreover have "(1::nat) < 2 ^ 53" by simp
    ultimately show ?thesis unfolding double_def on_grid_def by blast
  next
    case False
    then have lt: "rne (y / 2 ^ k) < 2 ^ 53" using up by simp
    have "round64 x = real (nat (rne (y / 2 ^ k))) * 2 ^ k * MIN_VALUE"
      unfolding r using n0 by simp
    moreover have "nat (rne (y / 2 ^ k)) < 2 ^ 53" using lt n0 by (simp add: nat_less_iff)
    ultimately show ?thesis unfolding double_def on_grid_def by blast
  qed
qed

lemma round64_exact: "double d \<Longrightarrow> round64 d = d"
  using round64_nearest[of d d] by simp

lemma round64_changes:
  assumes "0 < n" and "2 ^ 52 * MIN_VALUE \<le> m / n" and "1 / 2 ^ 53 < \<bar>n - 1\<bar>"
  shows "round64 (m / n) \<noteq> m"
proof
  assume eq: "round64 (m / n) = m"
  define q where "q = m / n"
  have q: "0 < q"
  proof -
    have "0 < 2 ^ 52 * MIN_VALUE" using MIN_VALUE_pos by simp
    then show ?thesis using assms(2) unfolding q_def by linarith
  qed
  have m: "m = q * n" using assms(1) by (simp add: q_def)
  have "\<bar>round64 q - q\<bar> \<le> q / 2 ^ 53" using assms(2) unfolding q_def by (rule round64_relative)
  then have "\<bar>q * n - q\<bar> \<le> q / 2 ^ 53" using eq by (simp add: q_def[symmetric] m[symmetric])
  moreover have "q * n - q = q * (n - 1)" by (simp add: algebra_simps)
  ultimately have "\<bar>q * (n - 1)\<bar> \<le> q * (1 / 2 ^ 53)" by simp
  then have "q * \<bar>n - 1\<bar> \<le> q * (1 / 2 ^ 53)" using q by (simp only: abs_mult abs_of_pos)
  then have "\<bar>n - 1\<bar> \<le> 1 / 2 ^ 53" using q by (simp only: mult_le_cancel_left_pos)
  then show False using assms(3) by simp
qed

lemma js_div_finite:
  "n \<noteq> 0 \<Longrightarrow>
   js_div (Num s m) (Num t n) =
     (if 2 ^ 1024 \<le> round64 (m / n) then Infinity (s \<noteq> t) else Num (s \<noteq> t) (round64 (m / n)))"
  by (simp add: Let_def)

lemma js_div_nearest:
  "0 \<le> m \<Longrightarrow> 0 < n \<Longrightarrow>
   \<exists>x. js_div (Num a m) (Num b n) =
         (if 2 ^ 1024 \<le> x then Infinity (a \<noteq> b) else Num (a \<noteq> b) x)
      \<and> double x \<and> (\<forall>d. double d \<longrightarrow> \<bar>x - m / n\<bar> \<le> \<bar>d - m / n\<bar>)"
  by (intro exI[of _ "round64 (m / n)"]) (simp add: Let_def round64_double round64_nearest)

lemma num_simps [simp]:
  "num 0 = Num False 0" "num 1 = Num False 1"
  "num (numeral k) = Num False (numeral k)" "num (- numeral k) = Num True (numeral k)"
  by (simp_all add: num_def)

text \<open>The scale in some windows, and some quotients that are not exact:
  \<^verbatim>\<open>440 / 800\<close>, \<^verbatim>\<open>253 / (440 / 800)\<close>, an overflow and an underflow.\<close>

lemma js_div_examples:
  "js_div (Num False 800) (Num False 800) = Num False 1"
  "js_div (Num False 600) (Num False 600) = Num False 1"
  "js_div (Num False 1600) (Num False 800) = Num False 2"
  "js_div (Num False 1200) (Num False 600) = Num False 2"
  "js_div (Num False 1200) (Num False 800) = Num False (3 / 2)"
  "js_div (Num False 1024) (Num False 800) = Num False (5764607523034235 / 2 ^ 52)"
  "js_div (Num False 768) (Num False 600) = Num False (5764607523034235 / 2 ^ 52)"
  "js_div (Num False 440) (Num False 800) = Num False (2476979795053773 / 2 ^ 52)"
  "js_div (Num False 253) (Num False (2476979795053773 / 2 ^ 52)) = Num False (460 - 1 / 2 ^ 44)"
  "js_div (Num False 100) (Num False 2) = Num False 50"
  "js_div (Num False 90) (Num False 2) = Num False 45"
  "js_div (Num False 100) (Num False 1) = Num False 100"
  "js_div (Num False 10) (Num False 1) = Num False 10"
  "js_div (Num False 20) (Num False 1) = Num False 20"
  "js_div (Num False 400) (Num False 1) = Num False 400"
  "js_div (Num False 600) (Num False 1) = Num False 600"
  "js_div (Num False (2 ^ 1023)) (Num False (1 / 2)) = Infinity False"
  "js_div (Num False MIN_VALUE) (Num False (3 / 2)) = Num False MIN_VALUE"
  "js_div (Num False 0) (Num False 1) = Num False 0"
proof -
  show "js_div (Num False 800) (Num False 800) = Num False 1"
    by (simp add: round64_normal[where k = 1022] rne_def)
  show "js_div (Num False 600) (Num False 600) = Num False 1"
    by (simp add: round64_normal[where k = 1022] rne_def)
  show "js_div (Num False 1600) (Num False 800) = Num False 2"
    by (simp add: round64_normal[where k = 1023] rne_def)
  show "js_div (Num False 1200) (Num False 600) = Num False 2"
    by (simp add: round64_normal[where k = 1023] rne_def)
  show "js_div (Num False 1200) (Num False 800) = Num False (3 / 2)"
    by (simp add: round64_normal[where k = 1022] rne_def)
  show "js_div (Num False 1024) (Num False 800) = Num False (5764607523034235 / 2 ^ 52)"
    by (simp add: round64_normal[where k = 1022] rne_def)
  show "js_div (Num False 768) (Num False 600) = Num False (5764607523034235 / 2 ^ 52)"
    by (simp add: round64_normal[where k = 1022] rne_def)
  show "js_div (Num False 440) (Num False 800) = Num False (2476979795053773 / 2 ^ 52)"
    by (simp add: round64_normal[where k = 1021] rne_def)
  show "js_div (Num False 253) (Num False (2476979795053773 / 2 ^ 52)) = Num False (460 - 1 / 2 ^ 44)"
    by (simp add: round64_normal[where k = 1030] rne_def)
  show "js_div (Num False 100) (Num False 2) = Num False 50"
    by (simp add: round64_normal[where k = 1027] rne_def)
  show "js_div (Num False 90) (Num False 2) = Num False 45"
    by (simp add: round64_normal[where k = 1027] rne_def)
  show "js_div (Num False 100) (Num False 1) = Num False 100"
    by (simp add: round64_normal[where k = 1028] rne_def)
  show "js_div (Num False 10) (Num False 1) = Num False 10"
    by (simp add: round64_normal[where k = 1025] rne_def)
  show "js_div (Num False 20) (Num False 1) = Num False 20"
    by (simp add: round64_normal[where k = 1026] rne_def)
  show "js_div (Num False 400) (Num False 1) = Num False 400"
    by (simp add: round64_normal[where k = 1030] rne_def)
  show "js_div (Num False 600) (Num False 1) = Num False 600"
    by (simp add: round64_normal[where k = 1031] rne_def)
  show "js_div (Num False (2 ^ 1023)) (Num False (1 / 2)) = Infinity False"
    by (simp add: round64_normal[where k = 2046] rne_def)
  show "js_div (Num False MIN_VALUE) (Num False (3 / 2)) = Num False MIN_VALUE"
    by (simp add: round64_low rne_def MIN_VALUE_def)
  show "js_div (Num False 0) (Num False 1) = Num False 0"
    by (simp add: round64_low rne_def MIN_VALUE_def)
qed

declare js_div.simps [simp del]

declare addDucks_from.simps [simp del]

lemma js_or_iff: "js_or a b = (a \<or> b)"
  by (simp add: js_or_def)

lemma lodash_some_iff: "lodash_some xs f = (\<exists>a\<in>set xs. f a)"
  by (induction xs) auto

lemma Stage_simps:
  "ducks (Stage sheet w h) = []" "heap (Stage sheet w h) = []"
  "children (Stage sheet w h) = [Tree, Background, DogSprite, FlashScreen, HudSprite]"
  "scale (Stage sheet w h) =
     Point (js_div (num (real w)) (num 800)) (js_div (num (real h)) (num 600))"
  "script (dog (Stage sheet w h)) = []"
  "flashVisible (Stage sheet w h) = False"
  "timers (Stage sheet w h) = []" "promises (Stage sheet w h) = []"
  "joins (Stage sheet w h) = []"
  by (simp_all add: Stage_def scaleToWindow_def setStage_def addChild_def new_Dog_def
      MAX_X_def MAX_Y_def)

subsection \<open>The spawn loop\<close>

lemma addDucks_0: "addDucks 0 speed s = s"
  by (simp add: addDucks_def addDucks_from.simps)

lemma addDucks_1: "addDucks (Suc 0) speed s = addDuck 0 speed s"
  by (simp add: addDucks_def addDucks_from.simps[of 0] addDucks_from.simps[of "Suc 0"])

lemma addDucks_from_Suc:
  "i \<le> n \<Longrightarrow> addDucks_from i (Suc n) speed s = addDuck n speed (addDucks_from i n speed s)"
proof (induction i n speed s rule: addDucks_from.induct)
  case (1 i numDucks speed s)
  show ?case
  proof (cases "i < numDucks")
    case True
    then show ?thesis
      using "1.IH" by (simp add: addDucks_from.simps[of i])
  next
    case False
    then have "i = numDucks" using "1.prems" by simp
    then show ?thesis
      by (simp add: addDucks_from.simps[of numDucks] addDucks_from.simps[of "Suc numDucks"])
  qed
qed

lemma addDucks_Suc: "addDucks (Suc n) speed s = addDuck n speed (addDucks n speed s)"
  by (simp add: addDucks_def addDucks_from_Suc)

lemma addDuck_fields:
  "ducks (addDuck i speed s) = ducks s @ [length (heap s)]"
  "length (heap (addDuck i speed s)) = Suc (length (heap s))"
  "alive (heap (addDuck i speed s) ! length (heap s))"
  "children (addDuck i speed s) =
     DuckSprite (length (heap s)) # remove1 (DuckSprite (length (heap s))) (children s)"
  "scale (addDuck i speed s) = scale s"
  by (simp_all add: addDuck_def Let_def new_Duck_def randomFlight_def addChildAt_def)

lemma ducksAlive_addDuck: "ducksAlive (addDuck i speed s)"
  by (simp add: ducksAlive_def lodash_some_iff addDuck_fields)

lemma addDucks_roster:
  "ducks (addDucks n speed s) = ducks s @ [length (heap s) ..< length (heap s) + n]
   \<and> length (heap (addDucks n speed s)) = length (heap s) + n"
  by (induction n) (simp_all add: addDucks_0 addDucks_Suc addDuck_fields)

lemma scale_addDucks: "scale (addDucks n speed s) = scale s"
  by (induction n) (simp_all add: addDucks_0 addDucks_Suc addDuck_fields)

subsection \<open>The hit loop\<close>

lemma shoot_other: "r \<notin> set rs \<Longrightarrow> fst (shoot P rs h n) ! r = h ! r"
  by (induction rs arbitrary: h n) (auto simp add: Let_def)

lemma shoot_member:
  "distinct rs \<Longrightarrow> r \<in> set rs \<Longrightarrow> \<forall>r\<in>set rs. r < length h \<Longrightarrow>
   fst (shoot P rs h n) ! r =
     (if isHit P (h ! r) then timeline_add DogRetrieve (shot (h ! r)) else h ! r)"
proof (induction rs arbitrary: h n)
  case Nil
  then show ?case by simp
next
  case (Cons a rs)
  show ?case
  proof (cases "r = a")
    case True
    then have "r \<notin> set rs" using Cons.prems by simp
    then show ?thesis using True Cons.prems by (simp add: Let_def shoot_other)
  next
    case False
    then have r: "r \<in> set rs" "a \<noteq> r" using Cons.prems by auto
    show ?thesis
    proof (cases "isHit P (h ! a)")
      case True
      let ?h = "h[a := timeline_add DogRetrieve (shot (h ! a))]"
      have "fst (shoot P rs ?h (Suc n)) ! r =
        (if isHit P (?h ! r) then timeline_add DogRetrieve (shot (?h ! r)) else ?h ! r)"
        using Cons.prems r by (intro Cons.IH) auto
      then show ?thesis using True r by (simp add: Let_def)
    next
      case False
      then show ?thesis using Cons.IH[of h n] Cons.prems r by (simp add: Let_def)
    qed
  qed
qed

lemma shoot_count:
  "distinct rs \<Longrightarrow> \<forall>r\<in>set rs. r < length h \<Longrightarrow>
   snd (shoot P rs h n) = n + length (filter (\<lambda>r. isHit P (h ! r)) rs)"
proof (induction rs arbitrary: h n)
  case Nil
  then show ?case by simp
next
  case (Cons a rs)
  have eq: "filter (\<lambda>r. isHit P (h[a := d] ! r)) rs = filter (\<lambda>r. isHit P (h ! r)) rs" for d
  proof (intro filter_cong refl)
    fix x assume "x \<in> set rs"
    then have "x \<noteq> a" using Cons.prems by auto
    then show "isHit P (h[a := d] ! x) = isHit P (h ! x)" by simp
  qed
  show ?case
  proof (cases "isHit P (h ! a)")
    case True
    let ?h = "h[a := timeline_add DogRetrieve (shot (h ! a))]"
    have "snd (shoot P rs ?h (Suc n)) = Suc n + length (filter (\<lambda>r. isHit P (?h ! r)) rs)"
      using Cons.prems by (intro Cons.IH) auto
    then show ?thesis using True by (simp add: Let_def eq)
  next
    case False
    then show ?thesis using Cons.IH[of h n] Cons.prems by (simp add: Let_def)
  qed
qed

lemma mapped_point:
  "fst (snd (shotsFired P s)) =
     P\<lparr>px := js_div (px P) (px (scale s)), py := js_div (py P) (py (scale s))\<rparr>"
  by (simp add: shotsFired_def Let_def split: prod.splits)

lemma shotsFired_parts:
  "shotsFired P s =
     (snd (shoot (fst (snd (shotsFired P s))) (ducks s) (heap s) 0),
      P\<lparr>px := js_div (px P) (px (scale s)), py := js_div (py P) (py (scale s))\<rparr>,
      s\<lparr>flashVisible := True, timers := timers s @ [(FLASH_MS, FlashOff)],
        heap := fst (shoot (fst (snd (shotsFired P s))) (ducks s) (heap s) 0)\<rparr>)"
  by (simp add: shotsFired_def Let_def split: prod.splits)


subsection \<open>The flee loop\<close>

lemma flee_Cons_alive:
  "alive (heap s ! a) \<Longrightarrow>
   flee (a # rs) s ps = flee rs (flee_duck (length (promises s)) a s) (ps @ [length (promises s)])"
  by (cases "a < length (heap s)")
     (simp_all add: Let_def pending_def flee_duck_def list_update_beyond)

lemma flee_Cons_dead: "\<not> alive (heap s ! a) \<Longrightarrow> flee (a # rs) s ps = flee rs s ps"
  by simp

lemma flee_duck_fields:
  "ducks (flee_duck p a s) = ducks s" "children (flee_duck p a s) = children s"
  "dog (flee_duck p a s) = dog s" "scale (flee_duck p a s) = scale s"
  "flashVisible (flee_duck p a s) = flashVisible s" "timers (flee_duck p a s) = timers s"
  "joins (flee_duck p a s) = joins s" "length (heap (flee_duck p a s)) = length (heap s)"
  "promises (flee_duck p a s) = promises s @ [False]"
  "r \<noteq> a \<Longrightarrow> heap (flee_duck p a s) ! r = heap s ! r"
  "a < length (heap s) \<Longrightarrow> heap (flee_duck p a s) ! a =
      flyTo FLEE_POINT (Resolve p) (stopAndClearTimeline (heap s ! a))"
  by (simp_all add: flee_duck_def)

lemma flee_duck_alive: "alive (heap (flee_duck p a s) ! r) = alive (heap s ! r)"
  by (cases "a < length (heap s)"; cases "r = a")
     (simp_all add: flee_duck_def flyTo_def stopAndClearTimeline_def list_update_beyond)

declare flee.simps(2) [simp del]

lemma flee_frame:
  "ducks (fst (flee rs s ps)) = ducks s \<and> children (fst (flee rs s ps)) = children s
   \<and> dog (fst (flee rs s ps)) = dog s \<and> scale (fst (flee rs s ps)) = scale s
   \<and> flashVisible (fst (flee rs s ps)) = flashVisible s \<and> timers (fst (flee rs s ps)) = timers s
   \<and> joins (fst (flee rs s ps)) = joins s
   \<and> length (heap (fst (flee rs s ps))) = length (heap s)"
proof (induction rs arbitrary: s ps)
  case Nil
  then show ?case by simp
next
  case (Cons a rs)
  then show ?case
    by (cases "alive (heap s ! a)")
       (simp_all add: flee_Cons_alive flee_Cons_dead flee_duck_fields)
qed

lemma flee_alive: "alive (heap (fst (flee rs s ps)) ! r) = alive (heap s ! r)"
proof (induction rs arbitrary: s ps)
  case Nil
  then show ?case by simp
next
  case (Cons a rs)
  then show ?case
    by (cases "alive (heap s ! a)")
       (simp_all add: flee_Cons_alive flee_Cons_dead flee_duck_alive)
qed

lemma flee_other:
  "r \<notin> set rs \<or> \<not> alive (heap s ! r) \<Longrightarrow> heap (fst (flee rs s ps)) ! r = heap s ! r"
proof (induction rs arbitrary: s ps)
  case Nil
  then show ?case by simp
next
  case (Cons a rs)
  show ?case
  proof (cases "alive (heap s ! a)")
    case True
    then have ne: "r \<noteq> a" using Cons.prems by auto
    let ?s3 = "flee_duck (length (promises s)) a s"
    have "heap (fst (flee rs ?s3 (ps @ [length (promises s)]))) ! r = heap ?s3 ! r"
      using Cons.prems ne by (intro Cons.IH) (auto simp add: flee_duck_alive)
    then show ?thesis using True ne by (simp add: flee_Cons_alive flee_duck_fields)
  next
    case False
    then show ?thesis using Cons.prems Cons.IH[of s ps] by (auto simp add: flee_Cons_dead)
  qed
qed

lemma flee_promises:
  "promises (fst (flee rs s ps)) =
     promises s @ replicate (length (filter (\<lambda>r. alive (heap s ! r)) rs)) False
   \<and> snd (flee rs s ps) =
     ps @ [length (promises s) ..< length (promises s) + length (filter (\<lambda>r. alive (heap s ! r)) rs)]"
proof (induction rs arbitrary: s ps)
  case Nil
  then show ?case by simp
next
  case (Cons a rs)
  show ?case
  proof (cases "alive (heap s ! a)")
    case True
    let ?s3 = "flee_duck (length (promises s)) a s"
    have u: "[n ..< Suc (n + k)] = n # [Suc n ..< Suc (n + k)]" for n k :: nat
      by (subst upt_conv_Cons) simp_all
    show ?thesis
      using Cons.IH[of ?s3 "ps @ [length (promises s)]"] True
      by (simp add: flee_Cons_alive flee_duck_alive flee_duck_fields replicate_app_Cons_same u
          del: upt_Suc)
  next
    case False
    then show ?thesis using Cons.IH[of s ps] by (simp add: flee_Cons_dead)
  qed
qed

lemma flee_participant:
  "distinct rs \<Longrightarrow> \<forall>r\<in>set rs. r < length (heap s) \<Longrightarrow>
   i < length (filter (\<lambda>r. alive (heap s ! r)) rs) \<Longrightarrow>
   heap (fst (flee rs s ps)) ! (filter (\<lambda>r. alive (heap s ! r)) rs ! i) =
     flyTo FLEE_POINT (Resolve (length (promises s) + i))
       (stopAndClearTimeline (heap s ! (filter (\<lambda>r. alive (heap s ! r)) rs ! i)))"
proof (induction rs arbitrary: s ps i)
  case Nil
  then show ?case by simp
next
  case (Cons a rs)
  show ?case
  proof (cases "alive (heap s ! a)")
    case True
    let ?s3 = "flee_duck (length (promises s)) a s"
    let ?A = "filter (\<lambda>r. alive (heap s ! r)) rs"
    show ?thesis
    proof (cases i)
      case 0
      have "heap (fst (flee rs ?s3 (ps @ [length (promises s)]))) ! a = heap ?s3 ! a"
        using Cons.prems by (intro flee_other) simp
      then show ?thesis using 0 True Cons.prems
        by (simp add: flee_Cons_alive flee_duck_fields)
    next
      case (Suc j)
      have j: "j < length ?A" using Suc Cons.prems True by simp
      then have mem: "?A ! j \<in> set rs" using nth_mem[OF j] by simp
      then have ne: "?A ! j \<noteq> a" using Cons.prems by auto
      have "heap (fst (flee rs ?s3 (ps @ [length (promises s)]))) !
              (filter (\<lambda>r. alive (heap ?s3 ! r)) rs ! j) =
            flyTo FLEE_POINT (Resolve (length (promises ?s3) + j))
              (stopAndClearTimeline (heap ?s3 ! (filter (\<lambda>r. alive (heap ?s3 ! r)) rs ! j)))"
        using Cons.prems j by (intro Cons.IH) (simp_all add: flee_duck_alive flee_duck_fields)
      then show ?thesis using Suc True ne
        by (simp add: flee_Cons_alive flee_duck_alive flee_duck_fields)
    qed
  next
    case False
    then show ?thesis using Cons.IH[of s i ps] Cons.prems by (simp add: flee_Cons_dead)
  qed
qed

lemma flyAway_parts:
  "fst (flyAway s) = length (promises s) + length (filter (\<lambda>r. alive (heap s ! r)) (ducks s))"
  "promises (snd (flyAway s)) =
     promises s @ replicate (Suc (length (filter (\<lambda>r. alive (heap s ! r)) (ducks s)))) False"
  "joins (snd (flyAway s)) = joins s @
     [\<lparr>waits = [length (promises s) ..<
                 length (promises s) + length (filter (\<lambda>r. alive (heap s ! r)) (ducks s))],
       handler = CleanUp,
       derived = length (promises s) + length (filter (\<lambda>r. alive (heap s ! r)) (ducks s))\<rparr>]"
  "heap (snd (flyAway s)) = heap (fst (flee (ducks s) (s\<lparr>dog := laugh (dog s)\<rparr>) []))"
  "ducks (snd (flyAway s)) = ducks s" "children (snd (flyAway s)) = children s"
  "dog (snd (flyAway s)) = laugh (dog s)" "timers (snd (flyAway s)) = timers s"
  "scale (snd (flyAway s)) = scale s" "flashVisible (snd (flyAway s)) = flashVisible s"
  using flee_promises[of "ducks s" "s\<lparr>dog := laugh (dog s)\<rparr>" "[]"]
        flee_frame[of "ducks s" "s\<lparr>dog := laugh (dog s)\<rparr>" "[]"]
  by (simp_all add: flyAway_def all_then_def pending_def Let_def case_prod_beta
      flip: replicate_append_same)

subsection \<open>Containers, promises and callbacks\<close>

lemma setChildIndex_0:
  "setChildIndex c 0 cs = (if c \<in> set cs then Some (c # remove1 c cs) else None)"
  by (cases cs) (simp_all add: setChildIndex_def)

lemma set_removeDucks: "set (removeDucks rs cs) \<subseteq> set cs"
proof (induction rs arbitrary: cs)
  case Nil
  then show ?case by simp
next
  case (Cons r rs)
  have "set (removeDucks rs (remove1 (DuckSprite r) cs)) \<subseteq> set (remove1 (DuckSprite r) cs)"
    by (rule Cons.IH)
  then show ?case using set_remove1_subset[of "DuckSprite r" cs] by (auto simp add: removeChild_def)
qed

lemma distinct_removeDucks: "distinct cs \<Longrightarrow> distinct (removeDucks rs cs)"
  by (induction rs arbitrary: cs) (simp_all add: removeChild_def)

lemma removeDucks_removes:
  "distinct cs \<Longrightarrow> r \<in> set rs \<Longrightarrow> DuckSprite r \<notin> set (removeDucks rs cs)"
proof (induction rs arbitrary: cs)
  case Nil
  then show ?case by simp
next
  case (Cons a rs)
  show ?case
  proof (cases "r = a")
    case True
    have "DuckSprite a \<notin> set (remove1 (DuckSprite a) cs)" using Cons.prems by simp
    then show ?thesis using True set_removeDucks[of rs "remove1 (DuckSprite a) cs"]
      by (auto simp add: removeChild_def)
  next
    case False
    then show ?thesis using Cons by (simp add: removeChild_def)
  qed
qed

lemma removeDucks_keeps:
  "c \<in> set cs \<Longrightarrow> c \<notin> DuckSprite ` set rs \<Longrightarrow> c \<in> set (removeDucks rs cs)"
  by (induction rs arbitrary: cs) (auto simp add: removeChild_def)

lemma resolve_fields:
  "heap (resolve p t) = heap t" "ducks (resolve p t) = ducks t"
  "children (resolve p t) = children t" "dog (resolve p t) = dog t"
  "timers (resolve p t) = timers t" "joins (resolve p t) = joins t"
  "scale (resolve p t) = scale t"
  "length (promises (resolve p t)) = length (promises t)"
  by (simp_all add: resolve_def)

lemma resolved_resolve:
  "resolved (resolve p t) p' = (p' < length (promises t) \<and> (p' = p \<or> resolved t p'))"
  by (cases "p' = p") (auto simp add: resolved_def resolve_def)

lemma resolved_resolve_other: "x \<noteq> p \<Longrightarrow> resolved (resolve p t) x = resolved t x"
  by (simp add: resolved_def resolve_def)


text \<open>What a callback can change.\<close>

lemma run_callback_frame:
  "heap (run_callback f t) = heap t"
  "timers (run_callback f t) = timers t"
  "joins (run_callback f t) = joins t"
  "scale (run_callback f t) = scale t"
  "length (promises (run_callback f t)) = length (promises t)"
  by (cases f; simp add: resolve_def cleanUpDucks_def split: option.splits)+


lemma run_callback_children:
  "distinct (children t) \<Longrightarrow> distinct (children (run_callback f t))"
  "set (children (run_callback f t)) \<subseteq> set (children t)"
  "DogSprite \<in> set (children t) \<Longrightarrow> DogSprite \<in> set (children (run_callback f t))"
proof -
  show "distinct (children t) \<Longrightarrow> distinct (children (run_callback f t))"
    by (cases f)
       (auto simp add: resolve_def cleanUpDucks_def setChildIndex_0 distinct_removeDucks
         split: option.splits if_splits)
  show "set (children (run_callback f t)) \<subseteq> set (children t)"
    using set_removeDucks[of "ducks t" "children t"] set_remove1_subset[of DogSprite "children t"]
    by (cases f)
       (auto simp add: resolve_def cleanUpDucks_def setChildIndex_0 split: option.splits if_splits)
  have "DogSprite \<in> set (removeDucks rs cs)" if "DogSprite \<in> set cs" for rs cs
    using that by (rule removeDucks_keeps) auto
  then show "DogSprite \<in> set (children t) \<Longrightarrow> DogSprite \<in> set (children (run_callback f t))"
    by (cases f)
       (auto simp add: resolve_def cleanUpDucks_def setChildIndex_0
         split: option.splits if_splits)
qed

lemma run_callback_ducks:
  "ducks (run_callback f t) = ducks t \<or> ducks (run_callback f t) = []"
  by (cases f) (simp_all add: resolve_def cleanUpDucks_def split: option.splits)

lemma settle_append: "settle (xs @ ys) t = settle ys (settle xs t)"
  by (induction xs arbitrary: t) simp_all

lemma settle_invariant:
  assumes "P t"
    and "\<And>t (j::join). j \<in> set js \<Longrightarrow> ready t j \<Longrightarrow> P t \<Longrightarrow>
           P (resolve (derived j) (run_callback (handler j) t))"
    and "\<And>t (j::join). j \<in> set js \<Longrightarrow> \<not> ready t j \<Longrightarrow> P t \<Longrightarrow>
           P (t\<lparr>joins := joins t @ [j]\<rparr>)"
  shows "P (settle js t)"
  using assms
proof (induction js arbitrary: t)
  case Nil
  then show ?case by simp
next
  case (Cons j js)
  have ih: "P (settle js u)" if "P u" for u
    using that Cons.prems(2,3) by (intro Cons.IH) simp_all
  show ?case
  proof (cases "ready t j")
    case True
    have "P (resolve (derived j) (run_callback (handler j) t))"
      using Cons.prems(1) True by (intro Cons.prems(2)) simp_all
    then show ?thesis using True ih by simp
  next
    case False
    have "P (t\<lparr>joins := joins t @ [j]\<rparr>)"
      using Cons.prems(1) False by (intro Cons.prems(3)) simp_all
    then show ?thesis using False ih by simp
  qed
qed

lemma sprites_gone_callback: "sprites_gone R t \<Longrightarrow> sprites_gone R (run_callback f t)"
proof -
  assume a: "sprites_gone R t"
  then have d: "distinct (children (run_callback f t))"
    by (simp add: sprites_gone_def run_callback_children)
  have "r \<in> set (ducks (run_callback f t)) \<or> DuckSprite r \<notin> set (children (run_callback f t))"
    if "r \<in> R" for r
  proof (cases "f = CleanUp")
    case True
    show ?thesis
    proof (cases "r \<in> set (ducks t)")
      case True
      then show ?thesis using a \<open>f = CleanUp\<close>
        by (simp add: cleanUpDucks_def sprites_gone_def removeDucks_removes)
    next
      case False
      then have "DuckSprite r \<notin> set (children t)" using a that by (auto simp add: sprites_gone_def)
      then show ?thesis using run_callback_children(2)[of f t] by auto
    qed
  next
    case False
    then have "ducks (run_callback f t) = ducks t"
      by (cases f) (simp_all add: resolve_def split: option.splits)
    then show ?thesis using a that run_callback_children(2)[of f t]
      by (auto simp add: sprites_gone_def)
  qed
  then show ?thesis using d by (simp add: sprites_gone_def)
qed

lemma flee_none_alive:
  "\<forall>r\<in>set rs. \<not> alive (heap s ! r) \<Longrightarrow> flee rs s ps = (s, ps)"
  by (induction rs) (simp_all add: flee_Cons_dead)

subsection \<open>Well-formedness is kept\<close>

lemma entry_ok_mono: "entry_ok n e \<Longrightarrow> n \<le> m \<Longrightarrow> entry_ok m e"
  by (induction n e rule: entry_ok.induct) simp_all

lemma behaviour_ok_mono: "behaviour_ok n b \<Longrightarrow> n \<le> m \<Longrightarrow> behaviour_ok m b"
  by (induction n b rule: behaviour_ok.induct) simp_all

lemma join_ok_mono: "join_ok n j \<Longrightarrow> n \<le> m \<Longrightarrow> join_ok m j"
  by (auto simp add: join_ok_def list_all_iff)

lemma stage_ok_grow:
  assumes "stage_ok s" "length (promises s) \<le> length ps"
  shows "stage_ok (s\<lparr>promises := ps\<rparr>)"
  using assms
  by (auto simp add: stage_ok_def roster_ok_def list_all_iff
      intro: entry_ok_mono behaviour_ok_mono join_ok_mono)

lemma list_all_update: "list_all P xs \<Longrightarrow> P x \<Longrightarrow> list_all P (xs[i := x])"
  using set_update_subset_insert[of xs i x] by (auto simp add: list_all_iff)

lemma stage_ok_Stage: "stage_ok (Stage sheet w h)"
  by (simp add: stage_ok_def roster_ok_def Stage_simps)

lemma stage_ok_scaleToWindow: "stage_ok s \<Longrightarrow> stage_ok (scaleToWindow w h s)"
  by (simp add: stage_ok_def roster_ok_def scaleToWindow_def)

lemma addDuck_explicit:
  "addDuck i speed s =
     s\<lparr>heap := heap s @ [\<lparr>colorProfile = (if i mod 2 = 0 then ''red'' else ''black''),
                             position = DUCK_ORIGIN, alive = True,
                             timeline = [RandomFlight speed]\<rparr>],
       children := DuckSprite (length (heap s)) # remove1 (DuckSprite (length (heap s))) (children s),
       ducks := ducks s @ [length (heap s)]\<rparr>"
  by (simp add: addDuck_def Let_def addChildAt_def new_Duck_def randomFlight_def
      DUCK_ORIGIN_def Point_def)

lemma stage_ok_addDuck:
  assumes "stage_ok s"
  shows "stage_ok (addDuck i speed s)"
proof -
  have r: "distinct (ducks s)" "\<forall>r\<in>set (ducks s). r < length (heap s)"
    using assms by (simp_all add: stage_ok_def roster_ok_def list_all_iff)
  then have "length (heap s) \<notin> set (ducks s)" by auto
  then have 1: "roster_ok (addDuck i speed s)"
    using r by (auto simp add: addDuck_explicit roster_ok_def list_all_iff)
  have 2: "distinct (children (addDuck i speed s))" "DogSprite \<in> set (children (addDuck i speed s))"
    using assms by (simp_all add: addDuck_explicit stage_ok_def)
  have 3: "list_all (\<lambda>d. list_all (entry_ok (length (promises s))) (timeline d))
             (heap (addDuck i speed s))"
    using assms by (simp add: addDuck_explicit stage_ok_def)
  show ?thesis
    using assms 1 2 3 unfolding stage_ok_def by (simp add: addDuck_explicit)
qed

lemma stage_ok_addDucks: "stage_ok s \<Longrightarrow> stage_ok (addDucks n speed s)"
  by (induction n) (simp_all add: addDucks_0 addDucks_Suc stage_ok_addDuck)

lemma shoot_entries:
  "list_all (\<lambda>d. list_all (entry_ok n) (timeline d)) h \<Longrightarrow>
   list_all (\<lambda>d. list_all (entry_ok n) (timeline d)) (fst (shoot P rs h c))"
proof (induction rs arbitrary: h c)
  case Nil
  then show ?case by simp
next
  case (Cons a rs)
  have "list_all (\<lambda>d. list_all (entry_ok n) (timeline d))
          (h[a := timeline_add DogRetrieve (shot (h ! a))])"
    using Cons.prems by (intro list_all_update) (simp_all add: timeline_add_def shot_def)
  then show ?case using Cons by (simp add: Let_def)
qed

lemma shoot_length: "length (fst (shoot P rs h c)) = length h"
  by (induction rs arbitrary: h c) (simp_all add: Let_def)

lemma stage_ok_shotsFired: "stage_ok s \<Longrightarrow> stage_ok (snd (snd (shotsFired P s)))"
  by (subst shotsFired_parts)
     (simp add: stage_ok_def roster_ok_def shoot_entries shoot_length)

lemma stage_ok_cleanUpDucks: "stage_ok s \<Longrightarrow> stage_ok (cleanUpDucks s)"
  by (simp add: stage_ok_def roster_ok_def cleanUpDucks_def distinct_removeDucks removeDucks_keeps image_iff)

lemma stage_ok_resolve: "stage_ok s \<Longrightarrow> stage_ok (resolve p s)"
  by (simp add: resolve_def stage_ok_grow)

lemma stage_ok_callback:
  "stage_ok s \<Longrightarrow> f \<in> {FlashOff, DogRetrieve, CleanUp} \<union> range FindComplete \<union> range Resolve \<Longrightarrow>
   stage_ok (run_callback f s)"
proof (cases f)
  case FlashOff
  assume "stage_ok s"
  then show ?thesis using FlashOff by (simp add: stage_ok_def roster_ok_def)
next
  case DogRetrieve
  assume "stage_ok s"
  then show ?thesis using DogRetrieve by (simp add: stage_ok_def roster_ok_def retrieve_def)
next
  case (FindComplete p)
  assume a: "stage_ok s"
  then have "stage_ok (s\<lparr>children := DogSprite # remove1 DogSprite (children s)\<rparr>)"
    by (simp add: stage_ok_def roster_ok_def)
  then show ?thesis using a FindComplete
    by (simp add: setChildIndex_0 stage_ok_resolve) 
next
  case (Resolve p)
  assume "stage_ok s"
  then show ?thesis using Resolve by (simp add: stage_ok_resolve)
next
  case CleanUp
  assume "stage_ok s"
  then show ?thesis using CleanUp by (simp add: stage_ok_cleanUpDucks)
qed

lemma stage_ok_preLevelAnimation: "stage_ok s \<Longrightarrow> stage_ok (snd (preLevelAnimation s))"
proof -
  assume a: "stage_ok s"
  have "stage_ok (cleanUpDucks (s\<lparr>promises := promises s @ [False]\<rparr>))"
    using a by (intro stage_ok_cleanUpDucks stage_ok_grow) simp_all
  then show ?thesis
    by (simp add: preLevelAnimation_def pending_def Let_def stage_ok_def roster_ok_def
        cleanUpDucks_def sniff_def find_dog_def)
qed

subsection \<open>Events, case by case\<close>

lemma duckStep_idle:
  "\<not> r < length (heap t) \<or> timeline (heap t ! r) = [] \<Longrightarrow> duckStep r p t = t"
  by (auto simp add: duckStep_def)

lemma duckStep_animation:
  "r < length (heap t) \<Longrightarrow> timeline (heap t ! r) = e # es \<Longrightarrow>
   e = RandomFlight v \<or> e = Death \<Longrightarrow>
   duckStep r p t = t\<lparr>heap := (heap t)[r := (heap t ! r)\<lparr>timeline := es, position := p\<rparr>]\<rparr>"
  by (auto simp add: duckStep_def)

lemma duckStep_flyTo:
  "r < length (heap t) \<Longrightarrow> timeline (heap t ! r) = FlyTo q (Resolve p') # es \<Longrightarrow>
   duckStep r p t =
     resolve p' (t\<lparr>heap := (heap t)[r := (heap t ! r)\<lparr>timeline := es, position := q\<rparr>]\<rparr>)"
  by (simp add: duckStep_def)

lemma duckStep_retrieve:
  "r < length (heap t) \<Longrightarrow> timeline (heap t ! r) = Call DogRetrieve # es \<Longrightarrow>
   duckStep r p t =
     t\<lparr>heap := (heap t)[r := (heap t ! r)\<lparr>timeline := es\<rparr>], dog := retrieve (dog t)\<rparr>"
  by (simp add: duckStep_def)

lemma entry_ok_cases:
  "entry_ok n e \<Longrightarrow>
   (\<exists>v. e = RandomFlight v) \<or> e = Death \<or> (\<exists>q p. e = FlyTo q (Resolve p) \<and> p < n)
   \<or> e = Call DogRetrieve"
  by (induction n e rule: entry_ok.induct) simp_all

lemma behaviour_ok_cases:
  "behaviour_ok n b \<Longrightarrow>
   (\<exists>a c. b = Sniff a c) \<or> (\<exists>p. b = Find (FindComplete p) \<and> p < n) \<or> b = Retrieve \<or> b = Laugh"
  by (induction n b rule: behaviour_ok.induct) simp_all

lemma stage_ok_heap_update:
  "stage_ok t \<Longrightarrow> list_all (entry_ok (length (promises t))) (timeline d) \<Longrightarrow>
   stage_ok (t\<lparr>heap := (heap t)[r := d]\<rparr>)"
  by (simp add: stage_ok_def roster_ok_def list_all_update)

lemma stage_ok_dog_update:
  "stage_ok t \<Longrightarrow> list_all (behaviour_ok (length (promises t))) (script g) \<Longrightarrow>
   stage_ok (t\<lparr>dog := g\<rparr>)"
  by (simp add: stage_ok_def roster_ok_def)

lemma stage_ok_duckStep:
  assumes "stage_ok t"
  shows "stage_ok (duckStep r p t)"
proof (cases "r < length (heap t) \<and> timeline (heap t ! r) \<noteq> []")
  case False
  then show ?thesis using assms by (simp add: duckStep_idle)
next
  case True
  then obtain e es where tl: "timeline (heap t ! r) = e # es" by (cases "timeline (heap t ! r)") auto
  have r: "r < length (heap t)" using True by simp
  have "list_all (entry_ok (length (promises t))) (timeline (heap t ! r))"
    using assms r by (simp add: stage_ok_def list_all_length)
  then have e: "entry_ok (length (promises t)) e" and es: "list_all (entry_ok (length (promises t))) es"
    by (simp_all add: tl)
  have upd: "stage_ok (t\<lparr>heap := (heap t)[r := (heap t ! r)\<lparr>timeline := es, position := x\<rparr>]\<rparr>)" for x
    using assms es by (intro stage_ok_heap_update) simp_all
  have upd': "stage_ok (t\<lparr>heap := (heap t)[r := (heap t ! r)\<lparr>timeline := es\<rparr>]\<rparr>)"
    using assms es by (intro stage_ok_heap_update) simp_all
  consider v where "e = RandomFlight v" | "e = Death" | q p' where "e = FlyTo q (Resolve p')"
    | "e = Call DogRetrieve"
    using entry_ok_cases[OF e] by blast
  then show ?thesis
  proof cases
    case 1
    then show ?thesis using duckStep_animation[OF r tl, of v p] upd by simp
  next
    case 2
    then show ?thesis using duckStep_animation[OF r tl, of _ p] upd by simp
  next
    case 3
    then show ?thesis using duckStep_flyTo[OF r, of q p' es p] tl upd stage_ok_resolve by simp
  next
    case 4
    have "stage_ok ((t\<lparr>heap := (heap t)[r := (heap t ! r)\<lparr>timeline := es\<rparr>]\<rparr>)\<lparr>dog := retrieve (dog t)\<rparr>)"
      using upd' assms by (intro stage_ok_dog_update) (simp_all add: retrieve_def stage_ok_def)
    then show ?thesis using 4 duckStep_retrieve[OF r, of es p] tl by simp
  qed
qed

lemma dogStep_find:
  "script (dog t) = Find f # bs \<Longrightarrow>
   dogStep t = run_callback f (t\<lparr>dog := (dog t)\<lparr>script := bs\<rparr>\<rparr>)"
  by (simp add: dogStep_def)

lemma dogStep_other:
  "script (dog t) = b # bs \<Longrightarrow> \<not> (\<exists>f. b = Find f) \<Longrightarrow>
   dogStep t = t\<lparr>dog := (dog t)\<lparr>script := bs\<rparr>\<rparr>"
  by (cases b) (simp_all add: dogStep_def)

lemma stage_ok_dogStep:
  assumes "stage_ok t"
  shows "stage_ok (dogStep t)"
proof (cases "script (dog t)")
  case Nil
  then show ?thesis using assms by (simp add: dogStep_def)
next
  case (Cons b bs)
  have ok: "behaviour_ok (length (promises t)) b" "list_all (behaviour_ok (length (promises t))) bs"
    using assms Cons by (simp_all add: stage_ok_def)
  have s1: "stage_ok (t\<lparr>dog := (dog t)\<lparr>script := bs\<rparr>\<rparr>)"
    using assms ok by (intro stage_ok_dog_update) simp_all
  show ?thesis
  proof (cases "\<exists>f. b = Find f")
    case True
    then obtain f where f: "b = Find f" by blast
    have "stage_ok (run_callback f (t\<lparr>dog := (dog t)\<lparr>script := bs\<rparr>\<rparr>))"
      using s1 behaviour_ok_cases[OF ok(1)] f by (intro stage_ok_callback) auto
    then show ?thesis using Cons f by (simp add: dogStep_find)
  next
    case False
    then show ?thesis using Cons s1 by (simp add: dogStep_other)
  qed
qed

lemma stage_ok_timerStep:
  assumes "stage_ok t"
  shows "stage_ok (timerStep t)"
proof (cases "timers t")
  case Nil
  then show ?thesis using assms by (simp add: timerStep_def)
next
  case (Cons x ts)
  then show ?thesis using assms
    by (cases x) (simp add: timerStep_def stage_ok_def roster_ok_def)
qed

lemma stage_ok_tick:
  assumes "stage_ok t"
  shows "stage_ok (tick t)"
proof -
  define n where "n = length (promises t)"
  define P where "P u = (stage_ok u \<and> length (promises u) = n)" for u
  have js: "\<forall>j\<in>set (joins t). join_ok n j"
    using assms by (simp add: stage_ok_def list_all_iff n_def)
  have "P (t\<lparr>joins := []\<rparr>)" using assms by (simp add: P_def stage_ok_def roster_ok_def n_def)
  then have "P (settle (joins t) (t\<lparr>joins := []\<rparr>))"
  proof (rule settle_invariant)
    fix u and j :: join assume "j \<in> set (joins t)" "P u"
    then have "handler j = CleanUp" using js by (simp add: join_ok_def)
    moreover have "length (promises (cleanUpDucks u)) = length (promises u)"
      by (simp add: cleanUpDucks_def)
    ultimately show "P (resolve (derived j) (run_callback (handler j) u))"
      using \<open>P u\<close> by (simp add: P_def stage_ok_resolve stage_ok_cleanUpDucks resolve_fields)
  next
    fix u and j :: join assume "j \<in> set (joins t)" "P u"
    then have "join_ok (length (promises u)) j" using js by (simp add: P_def)
    then show "P (u\<lparr>joins := joins u @ [j]\<rparr>)"
      using \<open>P u\<close> by (auto simp add: P_def stage_ok_def roster_ok_def)
  qed
  then show ?thesis by (simp add: tick_def P_def)
qed

lemma stage_ok_step: "stage_ok t \<Longrightarrow> stage_ok (step e t)"
  by (cases e) (simp_all add: stage_ok_duckStep stage_ok_dogStep stage_ok_timerStep stage_ok_tick)

lemma stage_ok_run: "stage_ok t \<Longrightarrow> stage_ok (run es t)"
  by (induction es arbitrary: t) (simp_all add: stage_ok_step)

lemma heap_ok_flee_duck: "heap_ok s \<Longrightarrow> heap_ok (flee_duck (length (promises s)) a s)"
proof -
  assume "heap_ok s"
  then have "list_all (\<lambda>d. list_all (entry_ok (Suc (length (promises s)))) (timeline d)) (heap s)"
    unfolding heap_ok_def list_all_iff using entry_ok_mono[of "length (promises s)" _ "Suc (length (promises s))"]
    by auto
  then show ?thesis
    by (simp add: heap_ok_def flee_duck_def list_all_update flyTo_def stopAndClearTimeline_def)
qed

lemma heap_ok_flee: "heap_ok s \<Longrightarrow> heap_ok (fst (flee rs s ps))"
proof (induction rs arbitrary: s ps)
  case Nil
  then show ?case by simp
next
  case (Cons a rs)
  then show ?case
    by (cases "alive (heap s ! a)")
       (simp_all add: flee_Cons_alive flee_Cons_dead heap_ok_flee_duck)
qed

lemma stage_ok_flyAway:
  assumes "stage_ok s"
  shows "stage_ok (snd (flyAway s))"
proof -
  let ?k = "length (filter (\<lambda>r. alive (heap s ! r)) (ducks s))"
  let ?n = "length (promises s)"
  let ?s0 = "s\<lparr>dog := laugh (dog s)\<rparr>"
  have "heap_ok ?s0" using assms by (simp add: heap_ok_def stage_ok_def)
  then have "heap_ok (fst (flee (ducks ?s0) ?s0 []))" by (rule heap_ok_flee)
  then have "list_all (\<lambda>d. list_all (entry_ok (?n + ?k)) (timeline d)) (heap (snd (flyAway s)))"
    using flee_promises[of "ducks s" ?s0 "[]"] by (simp add: heap_ok_def flyAway_parts)
  then have 1: "list_all (\<lambda>d. list_all (entry_ok (Suc (?n + ?k))) (timeline d)) (heap (snd (flyAway s)))"
    unfolding list_all_iff using entry_ok_mono[of "?n + ?k" _ "Suc (?n + ?k)"] by auto
  have 2: "roster_ok (snd (flyAway s))"
    using assms flee_frame[of "ducks s" ?s0 "[]"]
    by (simp add: roster_ok_def stage_ok_def flyAway_parts)
  have 3: "list_all (behaviour_ok (Suc (?n + ?k))) (script (dog (snd (flyAway s))))"
    using assms behaviour_ok_mono[of ?n _ "Suc (?n + ?k)"]
    by (auto simp add: flyAway_parts laugh_def stage_ok_def list_all_iff)
  have 4: "list_all (join_ok (Suc (?n + ?k))) (joins (snd (flyAway s)))"
    using assms join_ok_mono[of ?n _ "Suc (?n + ?k)"]
    by (auto simp add: flyAway_parts stage_ok_def list_all_iff join_ok_def)
  show ?thesis
    using assms 1 2 3 4 unfolding stage_ok_def by (simp add: flyAway_parts)
qed

lemma reachable_stage_ok: "reachable s \<Longrightarrow> stage_ok s"
  by (induction rule: reachable.induct)
     (simp_all add: stage_ok_Stage stage_ok_scaleToWindow stage_ok_addDucks stage_ok_shotsFired
        stage_ok_preLevelAnimation stage_ok_flyAway stage_ok_cleanUpDucks stage_ok_step)

lemma reachable_roster_ok: "reachable s \<Longrightarrow> roster_ok s"
  using reachable_stage_ok[of s] by (simp add: stage_ok_def)

subsection \<open>The intro sequence, step by step\<close>

lemma preLevelAnimation_parts:
  "fst (preLevelAnimation s) = length (promises s)"
  "promises (snd (preLevelAnimation s)) = promises s @ [False]"
  "ducks (snd (preLevelAnimation s)) = []"
  "children (snd (preLevelAnimation s)) = removeDucks (ducks s) (children s)"
  "script (dog (snd (preLevelAnimation s))) =
     script (dog s) @ [Sniff DOG_SNIFF_START DOG_SNIFF_END, Find (FindComplete (length (promises s)))]"
  "heap (snd (preLevelAnimation s)) = heap s"
  by (simp_all add: preLevelAnimation_def pending_def Let_def cleanUpDucks_def sniff_def find_dog_def)

lemma dogStep_FindComplete:
  "DogSprite \<in> set (children t) \<Longrightarrow> script (dog t) = Find (FindComplete p) # bs \<Longrightarrow>
   dogStep t = resolve p (t\<lparr>dog := (dog t)\<lparr>script := bs\<rparr>,
                             children := DogSprite # remove1 DogSprite (children t)\<rparr>)"
  by (simp add: dogStep_find setChildIndex_0)

lemma dogStep_effects:
  assumes "stage_ok t" "script (dog t) = b # bs" "behaviour_ok m b"
  shows "script (dog (dogStep t)) = bs" "ducks (dogStep t) = ducks t"
    "length (promises (dogStep t)) = length (promises t)"
    "resolved t p \<Longrightarrow> resolved (dogStep t) p"
    "m \<le> p \<Longrightarrow> resolved (dogStep t) p = resolved t p"
proof -
  have dog: "DogSprite \<in> set (children t)" using assms(1) by (simp add: stage_ok_def)
  consider p' where "b = Find (FindComplete p')" "p' < m" | "\<not> (\<exists>f. b = Find f)"
    using behaviour_ok_cases[OF assms(3)] by auto
  then have "script (dog (dogStep t)) = bs \<and> ducks (dogStep t) = ducks t
     \<and> length (promises (dogStep t)) = length (promises t)
     \<and> (resolved t p \<longrightarrow> resolved (dogStep t) p)
     \<and> (m \<le> p \<longrightarrow> resolved (dogStep t) p = resolved t p)"
  proof cases
    case 1
    have "dogStep t = resolve p' (t\<lparr>dog := (dog t)\<lparr>script := bs\<rparr>,
                             children := DogSprite # remove1 DogSprite (children t)\<rparr>)"
      using dog assms(2) 1 by (intro dogStep_FindComplete) simp_all
    then show ?thesis using 1(2)
      by (simp add: resolved_resolve resolve_fields) (auto simp add: resolved_def)
  next
    case 2
    then have "dogStep t = t\<lparr>dog := (dog t)\<lparr>script := bs\<rparr>\<rparr>"
      using assms(2) by (intro dogStep_other) simp_all
    then show ?thesis by (simp add: resolved_def)
  qed
  then show "script (dog (dogStep t)) = bs" "ducks (dogStep t) = ducks t"
    "length (promises (dogStep t)) = length (promises t)"
    "resolved t p \<Longrightarrow> resolved (dogStep t) p"
    "m \<le> p \<Longrightarrow> resolved (dogStep t) p = resolved t p"
    by simp_all
qed

lemma run_dog_prefix:
  assumes "stage_ok t" "script (dog t) = bs @ rest" "list_all (behaviour_ok m) bs"
  shows "script (dog (run (replicate (length bs) DogStep) t)) = rest
       \<and> ducks (run (replicate (length bs) DogStep) t) = ducks t
       \<and> length (promises (run (replicate (length bs) DogStep) t)) = length (promises t)
       \<and> (\<forall>p. resolved t p \<longrightarrow> resolved (run (replicate (length bs) DogStep) t) p)
       \<and> (\<forall>p\<ge>m. resolved (run (replicate (length bs) DogStep) t) p = resolved t p)"
  using assms
proof (induction bs arbitrary: t)
  case Nil
  then show ?case by simp
next
  case (Cons b bs)
  have sc: "script (dog t) = b # (bs @ rest)" and ok: "behaviour_ok m b"
    using Cons.prems by simp_all
  note eff = dogStep_effects[OF Cons.prems(1) sc ok]
  have "stage_ok (dogStep t)" using Cons.prems(1) by (rule stage_ok_dogStep)
  then have ih: "script (dog (run (replicate (length bs) DogStep) (dogStep t))) = rest
       \<and> ducks (run (replicate (length bs) DogStep) (dogStep t)) = ducks (dogStep t)
       \<and> length (promises (run (replicate (length bs) DogStep) (dogStep t))) = length (promises (dogStep t))
       \<and> (\<forall>p. resolved (dogStep t) p \<longrightarrow> resolved (run (replicate (length bs) DogStep) (dogStep t)) p)
       \<and> (\<forall>p\<ge>m. resolved (run (replicate (length bs) DogStep) (dogStep t)) p = resolved (dogStep t) p)"
    using Cons.prems(3) eff(1) by (intro Cons.IH) simp_all
  show ?case using ih eff by simp
qed

lemma intro_core:
  assumes "stage_ok s"
  shows "ducks (snd (preLevelAnimation s)) = []"
    "\<forall>r\<in>set (ducks s). DuckSprite r \<notin> set (children (snd (preLevelAnimation s)))"
    "Find (FindComplete (length (promises s))) \<notin> set (script (dog s))"
    "\<not> resolved (snd (preLevelAnimation s)) (length (promises s))"
    "\<not> resolved (run (replicate (Suc (length (script (dog s)))) DogStep) (snd (preLevelAnimation s)))
        (length (promises s))"
    "script (dog (run (replicate (Suc (length (script (dog s)))) DogStep) (snd (preLevelAnimation s))))
       = [Find (FindComplete (length (promises s)))]"
    "dogStep (run (replicate (Suc (length (script (dog s)))) DogStep) (snd (preLevelAnimation s))) =
       resolve (length (promises s))
         ((run (replicate (Suc (length (script (dog s)))) DogStep) (snd (preLevelAnimation s)))
            \<lparr>dog := (dog (run (replicate (Suc (length (script (dog s)))) DogStep) (snd (preLevelAnimation s))))
                      \<lparr>script := []\<rparr>,
             children := DogSprite # remove1 DogSprite
               (children (run (replicate (Suc (length (script (dog s)))) DogStep) (snd (preLevelAnimation s))))\<rparr>)"
    "ducks (run (replicate (Suc (length (script (dog s)))) DogStep) (snd (preLevelAnimation s))) = []"
    "length (promises (run (replicate (Suc (length (script (dog s)))) DogStep) (snd (preLevelAnimation s))))
       = Suc (length (promises s))"
    "stage_ok (run (replicate (Suc (length (script (dog s)))) DogStep) (snd (preLevelAnimation s)))"
    "\<forall>x. resolved s x \<longrightarrow>
       resolved (run (replicate (Suc (length (script (dog s)))) DogStep) (snd (preLevelAnimation s))) x"
proof -
  let ?p = "length (promises s)"
  let ?s1 = "snd (preLevelAnimation s)"
  let ?bs = "script (dog s) @ [Sniff DOG_SNIFF_START DOG_SNIFF_END]"
  let ?s2 = "run (replicate (Suc (length (script (dog s)))) DogStep) ?s1"
  have ok1: "stage_ok ?s1" using assms by (rule stage_ok_preLevelAnimation)
  have old: "list_all (behaviour_ok ?p) (script (dog s))"
    using assms by (simp add: stage_ok_def)
  show "ducks ?s1 = []" by (simp add: preLevelAnimation_parts)
  show "\<forall>r\<in>set (ducks s). DuckSprite r \<notin> set (children ?s1)"
    using assms by (simp add: preLevelAnimation_parts removeDucks_removes stage_ok_def)
  show "Find (FindComplete ?p) \<notin> set (script (dog s))"
    using old by (auto simp add: list_all_iff)
  show n1: "\<not> resolved ?s1 ?p" by (simp add: resolved_def preLevelAnimation_parts)
  have sc: "script (dog ?s1) = ?bs @ [Find (FindComplete ?p)]"
    by (simp add: preLevelAnimation_parts)
  have bs: "list_all (behaviour_ok ?p) ?bs" using old by simp
  have len: "Suc (length (script (dog s))) = length ?bs" by simp
  note pre = run_dog_prefix[OF ok1 sc bs, folded len]
  show "\<not> resolved ?s2 ?p" using pre n1 by simp
  show sc2: "script (dog ?s2) = [Find (FindComplete ?p)]" using pre by simp
  show ok2: "stage_ok ?s2" using ok1 by (rule stage_ok_run)
  then have "DogSprite \<in> set (children ?s2)" by (simp add: stage_ok_def)
  then show "dogStep ?s2 = resolve ?p (?s2\<lparr>dog := (dog ?s2)\<lparr>script := []\<rparr>,
             children := DogSprite # remove1 DogSprite (children ?s2)\<rparr>)"
    using sc2 by (rule dogStep_FindComplete)
  show "ducks ?s2 = []" using pre by (simp add: preLevelAnimation_parts)
  show "length (promises ?s2) = Suc ?p" using pre by (simp add: preLevelAnimation_parts)
  have "resolved ?s1 x" if "resolved s x" for x
    using that by (simp add: resolved_def preLevelAnimation_parts nth_append)
  then show "\<forall>x. resolved s x \<longrightarrow> resolved ?s2 x" using pre by simp
qed

subsection \<open>The flee invariant is kept\<close>


























subsection \<open>The flee sequence under calls of the game\<close>






lemma names_update:
  "list_all (\<lambda>d. list_all (\<lambda>e. \<not> entry_names q e) (timeline d)) h \<Longrightarrow>
   list_all (\<lambda>e. \<not> entry_names q e) (timeline d) \<Longrightarrow>
   list_all (\<lambda>d. list_all (\<lambda>e. \<not> entry_names q e) (timeline d)) (h[r := d])"
  by (rule list_all_update)








lemma shoot_names:
  "list_all (\<lambda>d. list_all (\<lambda>e. \<not> entry_names q e) (timeline d)) h \<Longrightarrow>
   list_all (\<lambda>d. list_all (\<lambda>e. \<not> entry_names q e) (timeline d)) (fst (shoot P rs h c))"
proof (induction rs arbitrary: h c)
  case Nil
  then show ?case by simp
next
  case (Cons a rs)
  have "list_all (\<lambda>d. list_all (\<lambda>e. \<not> entry_names q e) (timeline d))
          (h[a := timeline_add DogRetrieve (shot (h ! a))])"
    using Cons.prems by (intro list_all_update) (simp_all add: timeline_add_def shot_def)
  then show ?case using Cons by (simp add: Let_def)
qed



lemma flee_names:
  "list_all (\<lambda>d. list_all (\<lambda>e. \<not> entry_names q e) (timeline d)) (heap s) \<Longrightarrow>
   q < length (promises s) \<Longrightarrow>
   list_all (\<lambda>d. list_all (\<lambda>e. \<not> entry_names q e) (timeline d)) (heap (fst (flee rs s ps')))"
proof (induction rs arbitrary: s ps')
  case Nil
  then show ?case by simp
next
  case (Cons a rs)
  show ?case
  proof (cases "alive (heap s ! a)")
    case True
    let ?s3 = "flee_duck (length (promises s)) a s"
    have "list_all (\<lambda>d. list_all (\<lambda>e. \<not> entry_names q e) (timeline d)) (heap ?s3)"
      using Cons.prems
      by (simp add: flee_duck_def list_all_update flyTo_def stopAndClearTimeline_def)
    moreover have "q < length (promises ?s3)" using Cons.prems(2) by (simp add: flee_duck_def)
    ultimately show ?thesis using True Cons.IH by (simp add: flee_Cons_alive)
  next
    case False
    then show ?thesis using Cons by (simp add: flee_Cons_dead)
  qed
qed


























lemma acts_append: "acts (xs @ ys) t = acts ys (acts xs t)"
  by (induction xs arbitrary: t) simp_all

lemma acts_Host: "acts (map Host es) t = run es t"
  by (induction es arbitrary: t) simp_all

text \<open>The action of a trace at which a property of the state first holds.\<close>

lemma first_time:
  "\<not> Q t \<Longrightarrow> Q (acts as t) \<Longrightarrow>
   \<exists>bs a cs. as = bs @ a # cs \<and> \<not> Q (acts bs t) \<and> Q (act a (acts bs t))"
proof (induction as rule: rev_induct)
  case Nil
  then show ?case by simp
next
  case (snoc x xs)
  show ?case
  proof (cases "Q (acts xs t)")
    case True
    then obtain bs a cs where "xs = bs @ a # cs" "\<not> Q (acts bs t)" "Q (act a (acts bs t))"
      using snoc.IH[OF snoc.prems(1)] by blast
    then have "xs @ [x] = bs @ a # (cs @ [x]) \<and> \<not> Q (acts bs t) \<and> Q (act a (acts bs t))"
      by simp
    then show ?thesis by blast
  next
    case False
    have "xs @ [x] = xs @ x # [] \<and> \<not> Q (acts xs t) \<and> Q (act x (acts xs t))"
      using False snoc.prems(2) by (simp add: acts_append)
    then show ?thesis by blast
  qed
qed



text \<open>A duck that has been shot: the death animation completes, then the trigger.\<close>

lemma shot_retrieves:
  assumes "r < length (heap t)" and "timeline (heap t ! r) = [Death, Call DogRetrieve]"
  shows "dog (step (DuckStep r p1) t) = dog t
    \<and> timeline (heap (step (DuckStep r p1) t) ! r) = [Call DogRetrieve]
    \<and> dog (step (DuckStep r p2) (step (DuckStep r p1) t)) = retrieve (dog t)
    \<and> script (dog (run [DuckStep r p1, DuckStep r p2] t)) = script (dog t) @ [Retrieve]"
  using assms by (simp add: duckStep_def retrieve_def)





subsection \<open>The intro sequence under calls of the game\<close>

lemma quiet_keeps_refl: "quiet_keeps p t t"
  by (simp add: quiet_keeps_def)

lemma quiet_keeps_trans:
  "quiet_keeps p t t1 \<Longrightarrow> quiet_keeps p t1 t2 \<Longrightarrow> quiet_keeps p t t2"
  by (simp add: quiet_keeps_def)

lemma quiet_keepsI: "(quiet p t \<Longrightarrow> quiet_keeps p t t') \<Longrightarrow> quiet_keeps p t t'"
  by (auto simp add: quiet_keeps_def)

lemma quietD:
  assumes "quiet p t"
  shows "stage_ok t" "p < length (promises t)"
    "list_all (\<lambda>d. list_all (\<lambda>e. \<not> entry_names p e) (timeline d)) (heap t)"
    "list_all (\<lambda>j. derived j \<noteq> p) (joins t)"
  using assms by (simp_all add: quiet_def)

lemma quiet_keeps_frame:
  assumes "stage_ok t \<Longrightarrow> stage_ok t'"
    and "length (promises t) \<le> length (promises t')"
    and "list_all (\<lambda>d. list_all (\<lambda>e. \<not> entry_names p e) (timeline d)) (heap t) \<Longrightarrow>
         p < length (promises t) \<Longrightarrow>
         list_all (\<lambda>d. list_all (\<lambda>e. \<not> entry_names p e) (timeline d)) (heap t')"
    and "list_all (\<lambda>j. derived j \<noteq> p) (joins t) \<Longrightarrow> p < length (promises t) \<Longrightarrow>
         list_all (\<lambda>j. derived j \<noteq> p) (joins t')"
    and "p < length (promises t) \<Longrightarrow> resolved t' p = resolved t p"
  shows "quiet_keeps p t t'"
proof (rule quiet_keepsI)
  assume q: "quiet p t"
  note d = quietD[OF q]
  have "quiet p t'"
    unfolding quiet_def
    using assms(1)[OF d(1)] assms(2) d(2) assms(3)[OF d(3) d(2)] assms(4)[OF d(4) d(2)]
    by simp
  then show "quiet_keeps p t t'" using assms(5)[OF d(2)] by (simp add: quiet_keeps_def)
qed

lemma quiet_keeps_duckStep: "quiet_keeps p t (duckStep r pt t)"
proof (rule quiet_keepsI)
  assume q: "quiet p t"
  note d = quietD[OF q]
  show "quiet_keeps p t (duckStep r pt t)"
  proof (cases "r < length (heap t) \<and> timeline (heap t ! r) \<noteq> []")
    case False
    then show ?thesis by (simp add: duckStep_idle quiet_keeps_refl)
  next
    case True
    then have r: "r < length (heap t)" by simp
    obtain e es where tl: "timeline (heap t ! r) = e # es"
      using True by (cases "timeline (heap t ! r)") auto
    have "list_all (entry_ok (length (promises t))) (timeline (heap t ! r))"
      using d(1) r by (simp add: stage_ok_def list_all_length)
    then have e: "entry_ok (length (promises t)) e" by (simp add: tl)
    have "list_all (\<lambda>e. \<not> entry_names p e) (timeline (heap t ! r))"
      using d(3) r by (simp add: list_all_length)
    then have ne: "\<not> entry_names p e" and nes: "list_all (\<lambda>e. \<not> entry_names p e) es"
      by (simp_all add: tl)
    have hp: "list_all (\<lambda>d. list_all (\<lambda>e. \<not> entry_names p e) (timeline d))
                ((heap t)[r := (heap t ! r)\<lparr>timeline := es, position := x\<rparr>])" for x
      using d(3) nes by (intro names_update) simp_all
    have hp': "list_all (\<lambda>d. list_all (\<lambda>e. \<not> entry_names p e) (timeline d))
                ((heap t)[r := (heap t ! r)\<lparr>timeline := es\<rparr>])"
      using d(3) nes by (intro names_update) simp_all
    have ok: "stage_ok (duckStep r pt t)" using d(1) by (rule stage_ok_duckStep)
    consider v where "e = RandomFlight v" | "e = Death"
      | x p' where "e = FlyTo x (Resolve p')" | "e = Call DogRetrieve"
      using entry_ok_cases[OF e] by blast
    then show ?thesis
    proof cases
      case 1
      have eq: "duckStep r pt t = t\<lparr>heap := (heap t)[r := (heap t ! r)\<lparr>timeline := es, position := pt\<rparr>]\<rparr>"
        using duckStep_animation[OF r tl, of v pt] 1 by simp
      show ?thesis
        by (rule quiet_keeps_frame) (use ok hp in \<open>simp_all add: eq resolved_def\<close>)
    next
      case 2
      have eq: "duckStep r pt t = t\<lparr>heap := (heap t)[r := (heap t ! r)\<lparr>timeline := es, position := pt\<rparr>]\<rparr>"
        using duckStep_animation[OF r tl, of _ pt] 2 by simp
      show ?thesis
        by (rule quiet_keeps_frame) (use ok hp in \<open>simp_all add: eq resolved_def\<close>)
    next
      case 3
      let ?u = "t\<lparr>heap := (heap t)[r := (heap t ! r)\<lparr>timeline := es, position := x\<rparr>]\<rparr>"
      have eq: "duckStep r pt t = resolve p' ?u"
        using duckStep_flyTo[OF r, of x p' es pt] tl 3 by simp
      have neq: "p \<noteq> p'" using ne 3 by auto
      have rq: "resolved (resolve p' ?u) p = resolved t p"
        using neq by (simp add: resolved_resolve_other) (simp add: resolved_def)
      show ?thesis
        by (rule quiet_keeps_frame) (use ok hp rq in \<open>simp_all add: eq resolve_fields\<close>)
    next
      case 4
      have eq: "duckStep r pt t =
          t\<lparr>heap := (heap t)[r := (heap t ! r)\<lparr>timeline := es\<rparr>], dog := retrieve (dog t)\<rparr>"
        using duckStep_retrieve[OF r, of es pt] tl 4 by simp
      show ?thesis
        by (rule quiet_keeps_frame) (use ok hp' in \<open>simp_all add: eq resolved_def\<close>)
    qed
  qed
qed

lemma quiet_dogStep:
  assumes q: "quiet p t"
  shows "quiet p (dogStep t)"
    and "\<not> (\<exists>bs. script (dog t) = Find (FindComplete p) # bs) \<Longrightarrow>
           resolved (dogStep t) p = resolved t p"
proof -
  note d = quietD[OF q]
  have ok: "stage_ok (dogStep t)" using d(1) by (rule stage_ok_dogStep)
  have dog: "DogSprite \<in> set (children t)" using d(1) by (simp add: stage_ok_def)
  have "quiet p (dogStep t)
      \<and> (\<not> (\<exists>bs. script (dog t) = Find (FindComplete p) # bs) \<longrightarrow>
           resolved (dogStep t) p = resolved t p)"
  proof (cases "script (dog t)")
    case Nil
    then show ?thesis using q by (simp add: dogStep_def)
  next
    case (Cons b bs)
    have b: "behaviour_ok (length (promises t)) b" using d(1) Cons by (simp add: stage_ok_def)
    show ?thesis
    proof (cases "\<exists>f. b = Find f")
      case True
      then obtain p' where f: "b = Find (FindComplete p')"
        using behaviour_ok_cases[OF b] by auto
      let ?u = "t\<lparr>dog := (dog t)\<lparr>script := bs\<rparr>,
                  children := DogSprite # remove1 DogSprite (children t)\<rparr>"
      have eq: "dogStep t = resolve p' ?u"
        using dog Cons f by (intro dogStep_FindComplete) simp_all
      have 1: "quiet p (resolve p' ?u)"
        unfolding quiet_def resolve_fields using ok d(2,3,4) by (simp add: eq)
      have 2: "resolved (resolve p' ?u) p = resolved t p" if "p' \<noteq> p"
        using that by (simp add: resolved_resolve_other) (simp add: resolved_def)
      show ?thesis using 1 2 Cons f by (auto simp add: eq)
    next
      case False
      have eq: "dogStep t = t\<lparr>dog := (dog t)\<lparr>script := bs\<rparr>\<rparr>"
        using Cons False by (rule dogStep_other)
      have "quiet_keeps p t (dogStep t)"
        by (rule quiet_keeps_frame) (use ok in \<open>simp_all add: eq resolved_def\<close>)
      then show ?thesis using q by (simp add: quiet_keeps_def)
    qed
  qed
  then show "quiet p (dogStep t)"
    and "\<not> (\<exists>bs. script (dog t) = Find (FindComplete p) # bs) \<Longrightarrow>
           resolved (dogStep t) p = resolved t p"
    by blast+
qed

lemma quiet_keeps_timerStep: "quiet_keeps p t (timerStep t)"
proof (rule quiet_keepsI)
  assume q: "quiet p t"
  note d = quietD[OF q]
  have ok: "stage_ok (timerStep t)" using d(1) by (rule stage_ok_timerStep)
  show "quiet_keeps p t (timerStep t)"
  proof (cases "timers t")
    case Nil
    then show ?thesis by (simp add: timerStep_def quiet_keeps_refl)
  next
    case (Cons x ts)
    obtain ms g where x: "x = (ms, g)" by (cases x)
    have g: "g = FlashOff" using d(1) Cons x by (simp add: stage_ok_def)
    have eq: "timerStep t = t\<lparr>timers := ts, flashVisible := False\<rparr>"
      using Cons x g by (simp add: timerStep_def)
    show ?thesis
      by (rule quiet_keeps_frame) (use ok in \<open>simp_all add: eq resolved_def\<close>)
  qed
qed

lemma quiet_keeps_tick: "quiet_keeps p t (tick t)"
proof (rule quiet_keepsI)
  assume q: "quiet p t"
  note d = quietD[OF q]
  define P where "P u = (quiet p u \<and> length (promises u) = length (promises t)
      \<and> resolved u p = resolved t p)" for u
  have jok: "join_ok (length (promises t)) j" if "j \<in> set (joins t)" for j
    using d(1) that by (simp add: stage_ok_def list_all_iff)
  have jn: "derived j \<noteq> p" if "j \<in> set (joins t)" for j
    using d(4) that by (simp add: list_all_iff)
  have "quiet_keeps p t (t\<lparr>joins := []\<rparr>)"
    by (rule quiet_keeps_frame) (simp_all add: stage_ok_def roster_ok_def resolved_def)
  then have "P (t\<lparr>joins := []\<rparr>)" using q by (simp add: P_def quiet_keeps_def)
  then have "P (settle (joins t) (t\<lparr>joins := []\<rparr>))"
  proof (rule settle_invariant)
    fix u and j :: join
    assume j: "j \<in> set (joins t)" and P: "P u"
    have qu: "quiet p u" using P by (simp add: P_def)
    note du = quietD[OF qu]
    have h: "handler j = CleanUp" using jok[OF j] by (simp add: join_ok_def)
    let ?u' = "resolve (derived j) (cleanUpDucks u)"
    have rq: "resolved ?u' p = resolved u p"
      using jn[OF j] by (simp add: resolved_resolve_other) (simp add: resolved_def cleanUpDucks_def)
    have ok': "stage_ok ?u'" by (intro stage_ok_resolve stage_ok_cleanUpDucks du(1))
    have fl: "heap ?u' = heap u" "joins ?u' = joins u"
      "length (promises ?u') = length (promises u)"
      by (simp_all add: resolve_fields cleanUpDucks_def)
    have "quiet p ?u'"
      unfolding quiet_def fl using ok' du(2,3,4) by simp
    moreover have "?u' = resolve (derived j) (run_callback (handler j) u)" using h by simp
    ultimately show "P (resolve (derived j) (run_callback (handler j) u))"
      using P rq fl(3) by (simp add: P_def)
  next
    fix u and j :: join
    assume j: "j \<in> set (joins t)" and P: "P u"
    have qu: "quiet p u" using P by (simp add: P_def)
    note du = quietD[OF qu]
    have len: "length (promises u) = length (promises t)" using P by (simp add: P_def)
    have "quiet_keeps p u (u\<lparr>joins := joins u @ [j]\<rparr>)"
    proof (rule quiet_keeps_frame)
      show "stage_ok (u\<lparr>joins := joins u @ [j]\<rparr>)"
        using du(1) jok[OF j] len by (simp add: stage_ok_def roster_ok_def)
      show "list_all (\<lambda>j. derived j \<noteq> p) (joins (u\<lparr>joins := joins u @ [j]\<rparr>))"
        using du(4) jn[OF j] by simp
    qed (simp_all add: resolved_def)
    then have "quiet p (u\<lparr>joins := joins u @ [j]\<rparr>)"
      using qu by (simp add: quiet_keeps_def)
    moreover have "resolved (u\<lparr>joins := joins u @ [j]\<rparr>) x = resolved u x" for x
      by (simp add: resolved_def)
    ultimately show "P (u\<lparr>joins := joins u @ [j]\<rparr>)" using P by (simp add: P_def)
  qed
  then show "quiet_keeps p t (tick t)" by (simp add: P_def tick_def quiet_keeps_def)
qed

lemma quiet_keeps_addDucks: "quiet_keeps p t (addDucks n speed t)"
proof (induction n)
  case 0
  then show ?case by (simp add: addDucks_0 quiet_keeps_refl)
next
  case (Suc n)
  have "quiet_keeps p u (addDuck i speed u)" for u i
  proof (rule quiet_keeps_frame)
    show "stage_ok u \<Longrightarrow> stage_ok (addDuck i speed u)" by (rule stage_ok_addDuck)
  qed (simp_all add: addDuck_explicit resolved_def)
  then show ?case using Suc by (simp add: addDucks_Suc quiet_keeps_trans)
qed

lemma quiet_keeps_shotsFired: "quiet_keeps p t (snd (snd (shotsFired P t)))"
proof (rule quiet_keeps_frame)
  show "stage_ok t \<Longrightarrow> stage_ok (snd (snd (shotsFired P t)))" by (rule stage_ok_shotsFired)
  show "list_all (\<lambda>d. list_all (\<lambda>e. \<not> entry_names p e) (timeline d)) (heap t) \<Longrightarrow>
        list_all (\<lambda>d. list_all (\<lambda>e. \<not> entry_names p e) (timeline d))
          (heap (snd (snd (shotsFired P t))))"
    by (subst shotsFired_parts) (simp add: shoot_names)
qed (subst shotsFired_parts, simp add: resolved_def)+

lemma quiet_keeps_preLevelAnimation: "quiet_keeps p t (snd (preLevelAnimation t))"
proof (rule quiet_keeps_frame)
  have pr: "promises (snd (preLevelAnimation t)) = promises t @ [False]"
    by (simp add: preLevelAnimation_parts)
  show "stage_ok t \<Longrightarrow> stage_ok (snd (preLevelAnimation t))"
    by (rule stage_ok_preLevelAnimation)
  show "length (promises t) \<le> length (promises (snd (preLevelAnimation t)))" by (simp add: pr)
  show "list_all (\<lambda>j. derived j \<noteq> p) (joins t) \<Longrightarrow> p < length (promises t) \<Longrightarrow>
        list_all (\<lambda>j. derived j \<noteq> p) (joins (snd (preLevelAnimation t)))"
    by (simp add: preLevelAnimation_def pending_def Let_def cleanUpDucks_def)
  show "p < length (promises t) \<Longrightarrow> resolved (snd (preLevelAnimation t)) p = resolved t p"
    by (simp add: resolved_def pr nth_append)
qed (simp add: preLevelAnimation_parts)

lemma quiet_keeps_flyAway: "quiet_keeps p t (snd (flyAway t))"
proof (rule quiet_keeps_frame)
  let ?k = "length (filter (\<lambda>r. alive (heap t ! r)) (ducks t))"
  have pr: "promises (snd (flyAway t)) = promises t @ replicate (Suc ?k) False"
    by (simp add: flyAway_parts(2))
  show "stage_ok t \<Longrightarrow> stage_ok (snd (flyAway t))" by (rule stage_ok_flyAway)
  show "length (promises t) \<le> length (promises (snd (flyAway t)))" by (simp add: pr)
  show "list_all (\<lambda>d. list_all (\<lambda>e. \<not> entry_names p e) (timeline d)) (heap t) \<Longrightarrow>
        p < length (promises t) \<Longrightarrow>
        list_all (\<lambda>d. list_all (\<lambda>e. \<not> entry_names p e) (timeline d)) (heap (snd (flyAway t)))"
    using flee_names[of p "t\<lparr>dog := laugh (dog t)\<rparr>" "ducks t" "[]"]
    by (simp add: flyAway_parts(4))
  show "list_all (\<lambda>j. derived j \<noteq> p) (joins t) \<Longrightarrow> p < length (promises t) \<Longrightarrow>
        list_all (\<lambda>j. derived j \<noteq> p) (joins (snd (flyAway t)))"
    by (simp add: flyAway_parts(3))
  show "p < length (promises t) \<Longrightarrow> resolved (snd (flyAway t)) p = resolved t p"
    by (simp add: resolved_def pr nth_append)
qed

lemma quiet_keeps_act: "a \<noteq> Host DogStep \<Longrightarrow> quiet_keeps p t (act a t)"
proof (cases a)
  case (Host e)
  assume "a \<noteq> Host DogStep"
  then show ?thesis using Host
    by (cases e) (simp_all add: quiet_keeps_duckStep quiet_keeps_timerStep quiet_keeps_tick)
next
  case (ScaleToWindow w h)
  show ?thesis unfolding ScaleToWindow
    by (rule quiet_keeps_frame)
       (simp_all add: stage_ok_scaleToWindow, simp_all add: scaleToWindow_def resolved_def)
next
  case CleanUpDucks
  show ?thesis unfolding CleanUpDucks
    by (rule quiet_keeps_frame)
       (simp_all add: stage_ok_cleanUpDucks, simp_all add: cleanUpDucks_def resolved_def)
qed (simp_all add: quiet_keeps_addDucks quiet_keeps_shotsFired
      quiet_keeps_preLevelAnimation quiet_keeps_flyAway)

lemma quiet_act: "quiet p t \<Longrightarrow> quiet p (act a t)"
  using quiet_keeps_act[of a p t] quiet_dogStep(1)[of p t]
  by (cases "a = Host DogStep") (simp_all add: quiet_keeps_def)

text \<open>What an action does to the dog's queue: the dog's own step takes the front away,
  everything else appends at most.\<close>

lemma dog_settle:
  assumes "\<forall>j\<in>set js. handler j = CleanUp"
  shows "dog (settle js u) = dog u"
proof (rule settle_invariant[where P = "\<lambda>v. dog v = dog u"])
  fix t :: stage and j :: join assume "j \<in> set js" "dog t = dog u"
  then show "dog (resolve (derived j) (run_callback (handler j) t)) = dog u"
    using assms by (simp add: resolve_fields cleanUpDucks_def)
qed simp_all

lemma script_dogStep: "stage_ok t \<Longrightarrow> script (dog (dogStep t)) = tl (script (dog t))"
proof (cases "script (dog t)")
  case Nil
  then show ?thesis by (simp add: dogStep_def)
next
  case (Cons b bs)
  assume ok: "stage_ok t"
  then have "behaviour_ok (length (promises t)) b" using Cons by (simp add: stage_ok_def)
  then show ?thesis using dogStep_effects(1)[OF ok Cons] Cons by simp
qed

lemma script_act:
  assumes ok: "stage_ok t" and p: "p < length (promises t)" and a: "a \<noteq> Host DogStep"
  shows "\<exists>ext. script (dog (act a t)) = script (dog t) @ ext
           \<and> list_all (\<lambda>b. \<not> behaviour_names p b) ext"
proof -
  have same: ?thesis if "dog (act a t) = dog t"
    using that by (intro exI[of _ "[]"]) simp
  show ?thesis
  proof (cases a)
    case (Host e)
    show ?thesis
    proof (cases e)
      case (DuckStep r pt)
      show ?thesis
      proof (cases "r < length (heap t) \<and> timeline (heap t ! r) \<noteq> []")
        case False
        then show ?thesis using same by (simp add: Host DuckStep duckStep_idle)
      next
        case True
        then have r: "r < length (heap t)" by simp
        obtain x xs where tl: "timeline (heap t ! r) = x # xs"
          using True by (cases "timeline (heap t ! r)") auto
        have "list_all (entry_ok (length (promises t))) (timeline (heap t ! r))"
          using ok r by (simp add: stage_ok_def list_all_length)
        then have x: "entry_ok (length (promises t)) x" by (simp add: tl)
        consider v where "x = RandomFlight v" | "x = Death"
          | y p' where "x = FlyTo y (Resolve p')" | "x = Call DogRetrieve"
          using entry_ok_cases[OF x] by blast
        then show ?thesis
        proof cases
          case 1
          show ?thesis using duckStep_animation[OF r tl, of v pt] 1 same
            by (simp add: Host DuckStep)
        next
          case 2
          show ?thesis using duckStep_animation[OF r tl, of _ pt] 2 same
            by (simp add: Host DuckStep)
        next
          case 3
          show ?thesis using duckStep_flyTo[OF r, of y p' xs pt] tl 3 same
            by (simp add: Host DuckStep resolve_fields)
        next
          case 4
          have "script (dog (act a t)) = script (dog t) @ [Retrieve]"
            using duckStep_retrieve[OF r, of xs pt] tl 4 by (simp add: Host DuckStep retrieve_def)
          then show ?thesis by (intro exI[of _ "[Retrieve]"]) simp
        qed
      qed
    next
      case DogStep
      then show ?thesis using a Host by simp
    next
      case Timer
      show ?thesis
      proof (cases "timers t")
        case Nil
        then show ?thesis using same by (simp add: Host Timer timerStep_def)
      next
        case (Cons y ys)
        obtain ms g where y: "y = (ms, g)" by (cases y)
        have "g = FlashOff" using ok Cons y by (simp add: stage_ok_def)
        then show ?thesis using same Cons y by (simp add: Host Timer timerStep_def)
      qed
    next
      case Tick
      have "\<forall>j\<in>set (joins t). handler j = CleanUp"
        using ok by (simp add: stage_ok_def list_all_iff join_ok_def)
      then show ?thesis using same dog_settle[of "joins t" "t\<lparr>joins := []\<rparr>"]
        by (simp add: Host Tick tick_def)
    qed
  next
    case (AddDucks n v)
    have "dog (addDucks n v t) = dog t"
      by (induction n) (simp_all add: addDucks_0 addDucks_Suc addDuck_explicit)
    then show ?thesis using same by (simp add: AddDucks)
  next
    case (ShotsFired P)
    have "dog (snd (snd (shotsFired P t))) = dog t" by (subst shotsFired_parts) simp
    then show ?thesis using same by (simp add: ShotsFired)
  next
    case PreLevelAnimation
    show ?thesis
      by (intro exI[of _ "[Sniff DOG_SNIFF_START DOG_SNIFF_END,
            Find (FindComplete (length (promises t)))]"])
         (use p in \<open>simp add: PreLevelAnimation preLevelAnimation_parts\<close>)
  next
    case FlyAway
    show ?thesis
      by (intro exI[of _ "[Laugh]"]) (simp add: FlyAway flyAway_parts(7) laugh_def)
  next
    case (ScaleToWindow w h)
    then show ?thesis using same by (simp add: scaleToWindow_def)
  next
    case CleanUpDucks
    then show ?thesis using same by (simp add: cleanUpDucks_def)
  qed
qed

text \<open>The three shapes of the queue.\<close>

lemma sniffing_append:
  "sniffing p bs \<Longrightarrow> list_all (\<lambda>b. \<not> behaviour_names p b) ext \<Longrightarrow> sniffing p (bs @ ext)"
  unfolding sniffing_def by (metis append_Cons append_assoc list_all_append)

lemma finding_append:
  "finding p bs \<Longrightarrow> list_all (\<lambda>b. \<not> behaviour_names p b) ext \<Longrightarrow> finding p (bs @ ext)"
  unfolding finding_def by (metis append_Cons list_all_append)

lemma sniffing_tl:
  assumes "sniffing p bs"
  shows "sniffing p (tl bs)
       \<or> ((\<exists>post. bs = Sniff DOG_SNIFF_START DOG_SNIFF_END # Find (FindComplete p) # post)
          \<and> finding p (tl bs))"
proof -
  obtain pre post where b: "bs = pre @ Sniff DOG_SNIFF_START DOG_SNIFF_END # Find (FindComplete p) # post"
      "list_all (\<lambda>b. \<not> behaviour_names p b) pre" "list_all (\<lambda>b. \<not> behaviour_names p b) post"
    using assms unfolding sniffing_def by blast
  show ?thesis
  proof (cases pre)
    case Nil
    then have "bs = Sniff DOG_SNIFF_START DOG_SNIFF_END # Find (FindComplete p) # post"
      using b(1) by simp
    moreover have "finding p (tl bs)" unfolding finding_def using b(1,3) Nil by simp
    ultimately show ?thesis by blast
  next
    case (Cons x xs)
    then have "tl bs = xs @ Sniff DOG_SNIFF_START DOG_SNIFF_END # Find (FindComplete p) # post"
      using b(1) by simp
    moreover have "list_all (\<lambda>b. \<not> behaviour_names p b) xs" using b(2) Cons by simp
    ultimately have "sniffing p (tl bs)" unfolding sniffing_def using b(3) by blast
    then show ?thesis by blast
  qed
qed

lemma finding_tl: "finding p bs \<Longrightarrow> list_all (\<lambda>b. \<not> behaviour_names p b) (tl bs)"
  by (auto simp add: finding_def)

lemma clean_tl:
  "list_all (\<lambda>b. \<not> behaviour_names p b) bs \<Longrightarrow> list_all (\<lambda>b. \<not> behaviour_names p b) (tl bs)"
  by (cases bs) simp_all

lemma sniffing_front:
  assumes "sniffing p bs"
  shows "\<not> (\<exists>bs'. bs = Find (FindComplete p) # bs')" "\<not> finding p bs"
    "\<not> list_all (\<lambda>b. \<not> behaviour_names p b) bs"
proof -
  obtain pre post where b: "bs = pre @ Sniff DOG_SNIFF_START DOG_SNIFF_END # Find (FindComplete p) # post"
      "list_all (\<lambda>b. \<not> behaviour_names p b) pre"
    using assms unfolding sniffing_def by blast
  show 1: "\<not> (\<exists>bs'. bs = Find (FindComplete p) # bs')"
    using b by (cases pre) auto
  then show "\<not> finding p bs" by (auto simp add: finding_def)
  show "\<not> list_all (\<lambda>b. \<not> behaviour_names p b) bs" using b(1) by simp
qed

lemma clean_front:
  "list_all (\<lambda>b. \<not> behaviour_names p b) bs \<Longrightarrow> \<not> (\<exists>bs'. bs = Find (FindComplete p) # bs')"
  by auto

text \<open>The invariant is kept; the promise is resolved by the completion of \<^verbatim>\<open>find\<close>
  only, and \<^verbatim>\<open>find\<close> comes to the front by the completion of \<^verbatim>\<open>sniff\<close> only.\<close>

lemma intro_inv_act:
  assumes i: "intro_inv p t"
  shows "intro_inv p (act a t)"
proof -
  have q: "quiet p t" using i by (simp add: intro_inv_def)
  note d = quietD[OF q]
  have q': "quiet p (act a t)" using q by (rule quiet_act)
  let ?C = "list_all (\<lambda>b. \<not> behaviour_names p b)"
  have sh: "sniffing p (script (dog t)) \<or> finding p (script (dog t)) \<or> ?C (script (dog t))"
    using i by (simp add: intro_inv_def)
  have "sniffing p (script (dog (act a t))) \<or> finding p (script (dog (act a t)))
      \<or> ?C (script (dog (act a t)))"
  proof (cases "a = Host DogStep")
    case True
    then have "script (dog (act a t)) = tl (script (dog t))" using d(1) by (simp add: script_dogStep)
    then show ?thesis using sh sniffing_tl[of p "script (dog t)"] finding_tl[of p "script (dog t)"]
        clean_tl[of p "script (dog t)"] by auto
  next
    case False
    then obtain ext where "script (dog (act a t)) = script (dog t) @ ext" "?C ext"
      using script_act[OF d(1,2)] by blast
    then show ?thesis using sh sniffing_append[of p "script (dog t)" ext]
        finding_append[of p "script (dog t)" ext] by auto
  qed
  then show ?thesis using q' by (simp add: intro_inv_def)
qed

lemma intro_inv_acts: "intro_inv p t \<Longrightarrow> intro_inv p (acts as t)"
  by (induction as arbitrary: t) (simp_all add: intro_inv_act)

lemma intro_resolution:
  assumes i: "intro_inv p t" and n: "\<not> resolved t p" and r: "resolved (act a t) p"
  shows "a = Host DogStep" "finding p (script (dog t))"
proof -
  have q: "quiet p t" using i by (simp add: intro_inv_def)
  show a: "a = Host DogStep"
  proof (rule ccontr)
    assume "a \<noteq> Host DogStep"
    then show False using quiet_keeps_act[of a p t] q n r by (simp add: quiet_keeps_def)
  qed
  have "\<exists>bs. script (dog t) = Find (FindComplete p) # bs"
    using quiet_dogStep(2)[OF q] n r a by auto
  then show "finding p (script (dog t))"
    using i sniffing_front(1)[of p "script (dog t)"] clean_front[of p "script (dog t)"]
    by (auto simp add: intro_inv_def)
qed

lemma intro_sniff_end:
  assumes i: "intro_inv p t" and s: "sniffing p (script (dog t))"
    and n: "\<not> sniffing p (script (dog (act a t)))"
  shows "a = Host DogStep"
    "\<exists>post. script (dog t) = Sniff DOG_SNIFF_START DOG_SNIFF_END # Find (FindComplete p) # post"
proof -
  have q: "quiet p t" using i by (simp add: intro_inv_def)
  note d = quietD[OF q]
  show a: "a = Host DogStep"
  proof (rule ccontr)
    assume "a \<noteq> Host DogStep"
    then obtain ext where "script (dog (act a t)) = script (dog t) @ ext"
        "list_all (\<lambda>b. \<not> behaviour_names p b) ext"
      using script_act[OF d(1,2)] by blast
    then show False using s n sniffing_append[of p "script (dog t)" ext] by simp
  qed
  have "script (dog (act a t)) = tl (script (dog t))" using a d(1) by (simp add: script_dogStep)
  then show "\<exists>post. script (dog t) =
      Sniff DOG_SNIFF_START DOG_SNIFF_END # Find (FindComplete p) # post"
    using sniffing_tl[OF s] n by auto
qed

lemma intro_inv_preLevelAnimation:
  assumes ok: "stage_ok s"
  shows "intro_inv (length (promises s)) (snd (preLevelAnimation s))"
    and "sniffing (length (promises s)) (script (dog (snd (preLevelAnimation s))))"
    and "\<not> resolved (snd (preLevelAnimation s)) (length (promises s))"
proof -
  let ?p = "length (promises s)"
  let ?s1 = "snd (preLevelAnimation s)"
  have ok1: "stage_ok ?s1" using ok by (rule stage_ok_preLevelAnimation)
  have js: "joins ?s1 = joins s"
    by (simp add: preLevelAnimation_def pending_def Let_def cleanUpDucks_def)
  have "\<not> entry_names ?p e" if "entry_ok ?p e" for e
    using entry_ok_cases[OF that] by auto
  then have h: "list_all (\<lambda>d. list_all (\<lambda>e. \<not> entry_names ?p e) (timeline d)) (heap ?s1)"
    using ok by (simp add: preLevelAnimation_parts stage_ok_def list_all_iff)
  have j: "list_all (\<lambda>j. derived j \<noteq> ?p) (joins ?s1)"
    using ok by (auto simp add: js stage_ok_def list_all_iff join_ok_def)
  have q: "quiet ?p ?s1"
    unfolding quiet_def using ok1 h j by (simp add: preLevelAnimation_parts)
  have "\<not> behaviour_names ?p b" if "behaviour_ok ?p b" for b
    using behaviour_ok_cases[OF that] by auto
  then have c: "list_all (\<lambda>b. \<not> behaviour_names ?p b) (script (dog s))"
    using ok by (simp add: stage_ok_def list_all_iff)
  show sn: "sniffing ?p (script (dog ?s1))"
    unfolding sniffing_def preLevelAnimation_parts
    by (intro exI[of _ "script (dog s)"] exI[of _ "[]"]) (simp add: c)
  show "intro_inv ?p ?s1" using q sn by (simp add: intro_inv_def)
  show "\<not> resolved ?s1 ?p" by (simp add: resolved_def preLevelAnimation_parts)
qed

lemma intro_history:
  assumes ok: "stage_ok s"
    and res: "resolved (acts as (snd (preLevelAnimation s))) (fst (preLevelAnimation s))"
  shows "\<exists>bs cs. as = bs @ Host DogStep # cs
           \<and> \<not> resolved (acts bs (snd (preLevelAnimation s))) (fst (preLevelAnimation s))
           \<and> resolved (step DogStep (acts bs (snd (preLevelAnimation s)))) (fst (preLevelAnimation s))
           \<and> (\<exists>post. script (dog (acts bs (snd (preLevelAnimation s)))) =
                 Find (FindComplete (fst (preLevelAnimation s))) # post)
           \<and> children (step DogStep (acts bs (snd (preLevelAnimation s)))) =
               DogSprite # remove1 DogSprite (children (acts bs (snd (preLevelAnimation s))))
           \<and> (\<exists>ds es post. bs = ds @ Host DogStep # es
                 \<and> script (dog (acts ds (snd (preLevelAnimation s)))) =
                     Sniff DOG_SNIFF_START DOG_SNIFF_END
                       # Find (FindComplete (fst (preLevelAnimation s))) # post)"
proof -
  let ?p = "length (promises s)"
  let ?s1 = "snd (preLevelAnimation s)"
  have fp: "fst (preLevelAnimation s) = ?p" by (simp add: preLevelAnimation_parts)
  note init = intro_inv_preLevelAnimation[OF ok]
  obtain bs a cs where split: "as = bs @ a # cs"
    and before: "\<not> resolved (acts bs ?s1) ?p" and after: "resolved (act a (acts bs ?s1)) ?p"
    using first_time[of "\<lambda>t. resolved t ?p" ?s1 as] init(3) res unfolding fp by blast
  have ib: "intro_inv ?p (acts bs ?s1)" using init(1) by (rule intro_inv_acts)
  note r = intro_resolution[OF ib before after]
  obtain post where post: "script (dog (acts bs ?s1)) = Find (FindComplete ?p) # post"
    using r(2) by (auto simp add: finding_def)
  have okb: "stage_ok (acts bs ?s1)" using ib by (simp add: intro_inv_def quiet_def)
  then have "DogSprite \<in> set (children (acts bs ?s1))" by (simp add: stage_ok_def)
  then have ch: "children (step DogStep (acts bs ?s1)) =
      DogSprite # remove1 DogSprite (children (acts bs ?s1))"
    using dogStep_FindComplete[OF _ post] by (simp add: resolve_fields)
  have "\<not> (\<lambda>t. \<not> sniffing ?p (script (dog t))) ?s1" using init(2) by simp
  moreover have "(\<lambda>t. \<not> sniffing ?p (script (dog t))) (acts bs ?s1)"
    using r(2) sniffing_front(2)[of ?p "script (dog (acts bs ?s1))"] by blast
  ultimately obtain ds a' es where split': "bs = ds @ a' # es"
    and sn: "sniffing ?p (script (dog (acts ds ?s1)))"
    and nsn: "\<not> sniffing ?p (script (dog (act a' (acts ds ?s1))))"
    using first_time[of "\<lambda>t. \<not> sniffing ?p (script (dog t))" ?s1 bs] by blast
  have id: "intro_inv ?p (acts ds ?s1)" using init(1) by (rule intro_inv_acts)
  note e = intro_sniff_end[OF id sn nsn]
  obtain post' where post': "script (dog (acts ds ?s1)) =
      Sniff DOG_SNIFF_START DOG_SNIFF_END # Find (FindComplete ?p) # post'"
    using e(2) by blast
  have "as = bs @ Host DogStep # cs \<and> \<not> resolved (acts bs ?s1) ?p
      \<and> resolved (step DogStep (acts bs ?s1)) ?p"
    using split before after r(1) by simp
  moreover have "\<exists>ds es post. bs = ds @ Host DogStep # es
      \<and> script (dog (acts ds ?s1)) =
          Sniff DOG_SNIFF_START DOG_SNIFF_END # Find (FindComplete ?p) # post"
    using split' e(1) post' by blast
  ultimately show ?thesis unfolding fp using post ch by blast
qed

subsection \<open>What the events do to the ducks\<close>

lemma heap_settle: "heap (settle js u) = heap u"
proof (rule settle_invariant[where P = "\<lambda>v. heap v = heap u"])
  fix t :: stage and j :: join assume "heap t = heap u"
  then show "heap (resolve (derived j) (run_callback (handler j) t)) = heap u"
    by (simp add: resolve_fields run_callback_frame)
qed simp_all

lemma heap_events:
  "heap (dogStep s) = heap s" "heap (timerStep s) = heap s" "heap (tick s) = heap s"
proof -
  show "heap (dogStep s) = heap s"
  proof (cases "script (dog s)")
    case Nil
    then show ?thesis by (simp add: dogStep_def)
  next
    case (Cons b bs)
    then show ?thesis by (cases b) (simp_all add: dogStep_def Let_def run_callback_frame)
  qed
  show "heap (timerStep s) = heap s"
    by (cases "timers s") (simp_all add: timerStep_def run_callback_frame split: prod.splits)
  show "heap (tick s) = heap s" by (simp add: tick_def heap_settle)
qed

lemma heap_duckStep:
  assumes "r < length (heap t)" and "timeline (heap t ! r) = e # es"
  shows "\<exists>q. heap (duckStep r p t) = (heap t)[r := (heap t ! r)\<lparr>timeline := es, position := q\<rparr>]"
proof (cases e)
  case (RandomFlight v)
  then show ?thesis using assms by (auto simp add: duckStep_def)
next
  case Death
  then show ?thesis using assms by (auto simp add: duckStep_def)
next
  case (FlyTo x f)
  then show ?thesis using assms by (auto simp add: duckStep_def run_callback_frame)
next
  case (Call f)
  have "(heap t ! r)\<lparr>timeline := es\<rparr> =
      (heap t ! r)\<lparr>timeline := es, position := position (heap t ! r)\<rparr>" by simp
  then have "heap (duckStep r p t) =
      (heap t)[r := (heap t ! r)\<lparr>timeline := es, position := position (heap t ! r)\<rparr>]"
    using assms Call by (simp add: duckStep_def run_callback_frame)
  then show ?thesis by (rule exI)
qed

text \<open>A duck that is alive holds no retrieve trigger: the trigger is queued behind
  \<^verbatim>\<open>shot()\<close> only.\<close>

lemma live_clean_shoot:
  "list_all (\<lambda>d. alive d \<longrightarrow> Call DogRetrieve \<notin> set (timeline d)) h \<Longrightarrow>
   list_all (\<lambda>d. alive d \<longrightarrow> Call DogRetrieve \<notin> set (timeline d)) (fst (shoot P rs h c))"
proof (induction rs arbitrary: h c)
  case Nil
  then show ?case by simp
next
  case (Cons a rs)
  have "list_all (\<lambda>d. alive d \<longrightarrow> Call DogRetrieve \<notin> set (timeline d))
          (h[a := timeline_add DogRetrieve (shot (h ! a))])"
    using Cons.prems by (intro list_all_update) (simp_all add: timeline_add_def shot_def)
  then show ?case using Cons by (simp add: Let_def)
qed

lemma live_clean_flee:
  "list_all (\<lambda>d. alive d \<longrightarrow> Call DogRetrieve \<notin> set (timeline d)) (heap s) \<Longrightarrow>
   list_all (\<lambda>d. alive d \<longrightarrow> Call DogRetrieve \<notin> set (timeline d)) (heap (fst (flee rs s ps)))"
proof (induction rs arbitrary: s ps)
  case Nil
  then show ?case by simp
next
  case (Cons a rs)
  show ?case
  proof (cases "alive (heap s ! a)")
    case True
    let ?s3 = "flee_duck (length (promises s)) a s"
    have "list_all (\<lambda>d. alive d \<longrightarrow> Call DogRetrieve \<notin> set (timeline d)) (heap ?s3)"
      using Cons.prems
      by (simp add: flee_duck_def list_all_update flyTo_def stopAndClearTimeline_def)
    then show ?thesis using True Cons.IH by (simp add: flee_Cons_alive)
  next
    case False
    then show ?thesis using Cons by (simp add: flee_Cons_dead)
  qed
qed

lemma live_clean_step:
  assumes "list_all (\<lambda>d. alive d \<longrightarrow> Call DogRetrieve \<notin> set (timeline d)) (heap s)"
  shows "list_all (\<lambda>d. alive d \<longrightarrow> Call DogRetrieve \<notin> set (timeline d)) (heap (step e s))"
proof (cases e)
  case (DuckStep r p)
  show ?thesis
  proof (cases "r < length (heap s) \<and> timeline (heap s ! r) \<noteq> []")
    case True
    then obtain x xs where tl: "timeline (heap s ! r) = x # xs"
      by (cases "timeline (heap s ! r)") auto
    obtain q where q: "heap (duckStep r p s) =
        (heap s)[r := (heap s ! r)\<lparr>timeline := xs, position := q\<rparr>]"
      using heap_duckStep[OF _ tl, of p] True by blast
    have "alive (heap s ! r) \<longrightarrow> Call DogRetrieve \<notin> set (timeline (heap s ! r))"
      using assms True by (simp add: list_all_length)
    then have "alive (heap s ! r) \<longrightarrow> Call DogRetrieve \<notin> set xs" by (simp add: tl)
    then have "list_all (\<lambda>d. alive d \<longrightarrow> Call DogRetrieve \<notin> set (timeline d))
        ((heap s)[r := (heap s ! r)\<lparr>timeline := xs, position := q\<rparr>])"
      using assms by (intro list_all_update) simp_all
    then show ?thesis by (simp add: DuckStep q)
  next
    case False
    then show ?thesis using assms DuckStep by (simp add: duckStep_idle)
  qed
qed (use assms in \<open>simp_all add: heap_events\<close>)

lemma reachable_live_clean:
  "reachable s \<Longrightarrow>
   list_all (\<lambda>d. alive d \<longrightarrow> Call DogRetrieve \<notin> set (timeline d)) (heap s)"
proof (induction rule: reachable.induct)
  case (constructed sheet w h)
  then show ?case by (simp add: Stage_simps)
next
  case (rescaled s w h)
  then show ?case by (simp add: scaleToWindow_def)
next
  case (spawned s n speed)
  then show ?case
    by (induction n) (simp_all add: addDucks_0 addDucks_Suc addDuck_explicit)
next
  case (fired s P)
  then show ?case by (subst shotsFired_parts) (simp add: live_clean_shoot)
next
  case (intro s)
  then show ?case by (simp add: preLevelAnimation_parts)
next
  case (fled s)
  then show ?case
    using live_clean_flee[of "s\<lparr>dog := laugh (dog s)\<rparr>" "ducks s" "[]"]
    by (simp add: flyAway_parts(4))
next
  case (cleaned s)
  then show ?case by (simp add: cleanUpDucks_def)
next
  case (event s e)
  show ?case using event.IH by (rule live_clean_step)
qed

text \<open>A duck that has been shot, after the flee sequence has begun.\<close>

lemma shot_run:
  assumes "r < length (heap t)" and "timeline (heap t ! r) = [Death, Call DogRetrieve]"
  shows "script (dog (run [DuckStep r p1, DuckStep r p2] t)) = script (dog t) @ [Retrieve]"
    and "promises (run [DuckStep r p1, DuckStep r p2] t) = promises t"
    and "r' \<noteq> r \<Longrightarrow> heap (run [DuckStep r p1, DuckStep r p2] t) ! r' = heap t ! r'"
  using assms by (simp_all add: duckStep_def retrieve_def)

subsection \<open>The example states\<close>

lemma W1_fields:
  "ducks W1 = [0]" "promises W1 = []" "joins W1 = []"
  "heap W1 = [\<lparr>colorProfile = ''red'', position = DUCK_ORIGIN, alive = True,
                timeline = [RandomFlight 5]\<rparr>]"
  "children W1 = [DuckSprite 0, Tree, Background, DogSprite, FlashScreen, HudSprite]"
  "scale W1 = Point (num 1) (num 1)" "script (dog W1) = []"
  by (simp_all add: W1_def addDucks_1 addDuck_explicit Stage_simps js_div_examples)

lemma W2_fields:
  "ducks W2 = [0]" "promises W2 = []" "joins W2 = []"
  "heap W2 = [\<lparr>colorProfile = ''red'', position = DUCK_ORIGIN, alive = False,
                timeline = [Death, Call DogRetrieve]\<rparr>]"
  "children W2 = [DuckSprite 0, Tree, Background, DogSprite, FlashScreen, HudSprite]"
  "script (dog W2) = []"
  by (simp_all add: W2_def shotsFired_def Let_def W1_fields isHit_def Point_def DUCK_ORIGIN_def
      MAX_X_def MAX_Y_def shot_def timeline_add_def js_div_examples js_val_def)

lemma W3_fields:
  "ducks W3 = [0, 1]" "promises W3 = []" "joins W3 = []"
  "heap W3 = [\<lparr>colorProfile = ''red'', position = DUCK_ORIGIN, alive = False,
                timeline = [Death, Call DogRetrieve]\<rparr>,
              \<lparr>colorProfile = ''red'', position = DUCK_ORIGIN, alive = True,
                timeline = [RandomFlight 5]\<rparr>]"
  "script (dog W3) = []"
  by (simp_all add: W3_def addDucks_1 addDuck_explicit W2_fields)

lemma stage_ok_W: "stage_ok W1" "stage_ok W2" "stage_ok W3"
  by (simp_all add: W1_def W2_def W3_def stage_ok_Stage stage_ok_addDucks stage_ok_shotsFired)

text \<open>The flee sequence of \<open>W3\<close>, and a trace in which the game spawns a duck and
  rescales the stage while the sequence is outstanding.\<close>

lemma W3_fled:
  "heap (snd (flyAway W3)) =
     [\<lparr>colorProfile = ''red'', position = DUCK_ORIGIN, alive = False,
        timeline = [Death, Call DogRetrieve]\<rparr>,
      \<lparr>colorProfile = ''red'', position = DUCK_ORIGIN, alive = True,
        timeline = [FlyTo FLEE_POINT (Resolve 0)]\<rparr>]"
  "resolved (acts [AddDucks 1 5, Host (DuckStep 1 FLEE_POINT), ScaleToWindow 1024 768, Host Tick]
     (snd (flyAway W3))) 1"
proof -
  show h: "heap (snd (flyAway W3)) =
     [\<lparr>colorProfile = ''red'', position = DUCK_ORIGIN, alive = False,
        timeline = [Death, Call DogRetrieve]\<rparr>,
      \<lparr>colorProfile = ''red'', position = DUCK_ORIGIN, alive = True,
        timeline = [FlyTo FLEE_POINT (Resolve 0)]\<rparr>]"
    by (simp add: flyAway_parts(4) flee_Cons_dead flee_Cons_alive W3_fields flee_duck_def
        flyTo_def stopAndClearTimeline_def)
  show "resolved (acts [AddDucks 1 5, Host (DuckStep 1 FLEE_POINT), ScaleToWindow 1024 768,
      Host Tick] (snd (flyAway W3))) 1"
    by (simp add: addDucks_1 addDuck_explicit duckStep_def scaleToWindow_def tick_def ready_def
        resolved_def resolve_def flyAway_parts(2,3) h cleanUpDucks_def W3_fields)
qed

text \<open>Two traces after the intro sequence has begun on a new stage.\<close>

lemma intro_trace:
  "resolved (acts [Host DogStep, AddDucks 1 5, Host Tick, Host DogStep]
      (snd (preLevelAnimation (Stage [] 800 600)))) 0"
  "\<not> resolved (acts [Host Tick, AddDucks 1 5, Host DogStep, Host Tick]
      (snd (preLevelAnimation (Stage [] 800 600)))) 0"
  by (simp_all add: preLevelAnimation_def pending_def Let_def cleanUpDucks_def sniff_def
      find_dog_def Stage_def scaleToWindow_def setStage_def addChild_def new_Dog_def
      dogStep_def addDucks_1 addDuck_explicit tick_def resolved_def resolve_def
      setChildIndex_def)

section \<open>Hit resolution\<close>

text \<open>
  Claim C1. In a state whose roster holds distinct allocated ducks, \<^verbatim>\<open>shotsFired(P)\<close>
  returns the number of roster members that are alive when it is called and whose
  distance to the rescaled point is less than 60. Each of them is left as \<^verbatim>\<open>shot()\<close>
  followed by \<^verbatim>\<open>timeline.add\<close> of the retrieve trigger leaves it: no longer alive, the
  trigger last on its own timeline, behind the death animation. When that animation
  completes the dog is as it was, and when the trigger then has its turn it calls
  \<^verbatim>\<open>dog.retrieve()\<close>. Every other roster member is untouched. The rescaled point is
  the click divided by the scale, axis by axis, in the arithmetic of doubles: where
  click and scale are finite and the scale is positive, the quotient is a double
  nearest to the exact quotient, or an infinity when that double is \<open>2 ^ 1024\<close>. For a
  finite rescaled point the distance is the Euclidean one; a rescaled point with an
  infinite or NaN coordinate hits nothing.
\<close>

theorem shotsFired_counts_and_shoots:
  assumes "roster_ok s"
  shows "fst (shotsFired P s) =
           card {r \<in> set (ducks s). alive (heap s ! r) \<and>
                   js_less (pointDistance (position (heap s ! r)) (fst (snd (shotsFired P s)))) 60}
    \<and> (\<forall>r\<in>set (ducks s).
          alive (heap s ! r) \<and>
          js_less (pointDistance (position (heap s ! r)) (fst (snd (shotsFired P s)))) 60 \<longrightarrow>
            heap (snd (snd (shotsFired P s))) ! r = timeline_add DogRetrieve (shot (heap s ! r))
          \<and> \<not> alive (heap (snd (snd (shotsFired P s))) ! r)
          \<and> timeline (heap (snd (snd (shotsFired P s))) ! r) = [Death, Call DogRetrieve]
          \<and> (\<forall>p1 p2.
                dog (step (DuckStep r p1) (snd (snd (shotsFired P s)))) = dog s
              \<and> timeline (heap (step (DuckStep r p1) (snd (snd (shotsFired P s)))) ! r) =
                  [Call DogRetrieve]
              \<and> dog (step (DuckStep r p2) (step (DuckStep r p1) (snd (snd (shotsFired P s))))) =
                  retrieve (dog s)
              \<and> script (dog (run [DuckStep r p1, DuckStep r p2] (snd (snd (shotsFired P s))))) =
                  script (dog s) @ [Retrieve]))
    \<and> (\<forall>r\<in>set (ducks s).
          \<not> (alive (heap s ! r) \<and>
             js_less (pointDistance (position (heap s ! r)) (fst (snd (shotsFired P s)))) 60) \<longrightarrow>
            heap (snd (snd (shotsFired P s))) ! r = heap s ! r)
    \<and> fst (snd (shotsFired P s)) =
        P\<lparr>px := js_div (px P) (px (scale s)), py := js_div (py P) (py (scale s))\<rparr>
    \<and> (px P = Num a m \<and> px (scale s) = Num b n \<and> 0 \<le> m \<and> 0 < n \<longrightarrow>
          (\<exists>x. px (fst (snd (shotsFired P s))) =
                  (if 2 ^ 1024 \<le> x then Infinity (a \<noteq> b) else Num (a \<noteq> b) x)
               \<and> double x \<and> (\<forall>d. double d \<longrightarrow> \<bar>x - m / n\<bar> \<le> \<bar>d - m / n\<bar>)))
    \<and> (py P = Num a' m' \<and> py (scale s) = Num b' n' \<and> 0 \<le> m' \<and> 0 < n' \<longrightarrow>
          (\<exists>y. py (fst (snd (shotsFired P s))) =
                  (if 2 ^ 1024 \<le> y then Infinity (a' \<noteq> b') else Num (a' \<noteq> b') y)
               \<and> double y \<and> (\<forall>d. double d \<longrightarrow> \<bar>y - m' / n'\<bar> \<le> \<bar>d - m' / n'\<bar>)))
    \<and> (\<forall>p sa xa sb xb. js_less (pointDistance p (Point (Num sa xa) (Num sb xb))) 60 =
          (sqrt ((px p - js_val sa xa)\<^sup>2 + (py p - js_val sb xb)\<^sup>2) < 60))
    \<and> (\<forall>p q. px q = NaN \<or> py q = NaN \<or> (\<exists>sg. px q = Infinity sg) \<or> (\<exists>sg. py q = Infinity sg) \<longrightarrow>
          \<not> js_less (pointDistance p q) 60)"
proof -
  let ?P = "fst (snd (shotsFired P s))"
  let ?s' = "snd (snd (shotsFired P s))"
  have d: "distinct (ducks s)" and b: "\<forall>r\<in>set (ducks s). r < length (heap s)"
    using assms by (simp_all add: roster_ok_def list_all_iff)
  have hit: "isHit ?P (heap s ! r) =
      (alive (heap s ! r) \<and> js_less (pointDistance (position (heap s ! r)) ?P) 60)" for r
    by (simp add: isHit_def)
  have "fst (shotsFired P s) = length (filter (\<lambda>r. isHit ?P (heap s ! r)) (ducks s))"
    by (subst shotsFired_parts) (simp add: shoot_count[OF d b])
  also have "\<dots> = card {r \<in> set (ducks s). isHit ?P (heap s ! r)}"
    using d by (simp add: distinct_length_filter Int_def conj_commute)
  finally have 1: "fst (shotsFired P s) = card {r \<in> set (ducks s). isHit ?P (heap s ! r)}" .
  have 2: "heap ?s' ! r =
           (if isHit ?P (heap s ! r)
            then timeline_add DogRetrieve (shot (heap s ! r)) else heap s ! r)"
    if "r \<in> set (ducks s)" for r
    by (subst shotsFired_parts) (simp add: shoot_member[OF d that b])
  have dg: "dog ?s' = dog s" by (subst shotsFired_parts) simp
  have len: "length (heap ?s') = length (heap s)"
    by (subst shotsFired_parts) (simp add: shoot_length)
  have 3: "heap ?s' ! r = timeline_add DogRetrieve (shot (heap s ! r))
         \<and> \<not> alive (heap ?s' ! r)
         \<and> timeline (heap ?s' ! r) = [Death, Call DogRetrieve]
         \<and> (\<forall>p1 p2.
                dog (step (DuckStep r p1) ?s') = dog s
              \<and> timeline (heap (step (DuckStep r p1) ?s') ! r) = [Call DogRetrieve]
              \<and> dog (step (DuckStep r p2) (step (DuckStep r p1) ?s')) = retrieve (dog s)
              \<and> script (dog (run [DuckStep r p1, DuckStep r p2] ?s')) =
                  script (dog s) @ [Retrieve])"
    if "r \<in> set (ducks s)" "isHit ?P (heap s ! r)" for r
  proof -
    have r: "r < length (heap ?s')" using b that(1) len by simp
    have tl: "timeline (heap ?s' ! r) = [Death, Call DogRetrieve]"
      using 2[OF that(1)] that(2) by (simp add: timeline_add_def shot_def)
    show ?thesis
      using 2[OF that(1)] that(2) shot_retrieves[OF r tl] dg
      by (simp add: timeline_add_def shot_def retrieve_def)
  qed
  have 4: "heap ?s' ! r = heap s ! r"
    if "r \<in> set (ducks s)" "\<not> isHit ?P (heap s ! r)" for r
    using 2[OF that(1)] that(2) by simp
  have 5: "js_less (pointDistance p (Point (Num sa xa) (Num sb xb))) 60 =
          (sqrt ((px p - js_val sa xa)\<^sup>2 + (py p - js_val sb xb)\<^sup>2) < 60)" for p sa xa sb xb
    by (simp add: Point_def js_val_def)
  have 6: "\<exists>x. px ?P = (if 2 ^ 1024 \<le> x then Infinity (a \<noteq> b) else Num (a \<noteq> b) x)
               \<and> double x \<and> (\<forall>d. double d \<longrightarrow> \<bar>x - m / n\<bar> \<le> \<bar>d - m / n\<bar>)"
    if "px P = Num a m \<and> px (scale s) = Num b n \<and> 0 \<le> m \<and> 0 < n"
    using that js_div_nearest[of m n a b] by (simp add: mapped_point)
  have 7: "\<exists>y. py ?P = (if 2 ^ 1024 \<le> y then Infinity (a' \<noteq> b') else Num (a' \<noteq> b') y)
               \<and> double y \<and> (\<forall>d. double d \<longrightarrow> \<bar>y - m' / n'\<bar> \<le> \<bar>d - m' / n'\<bar>)"
    if "py P = Num a' m' \<and> py (scale s) = Num b' n' \<and> 0 \<le> m' \<and> 0 < n'"
    using that js_div_nearest[of m' n' a' b'] by (simp add: mapped_point)
  have 8: "\<not> js_less (pointDistance p q) 60"
    if "px q = NaN \<or> py q = NaN \<or> (\<exists>sg. px q = Infinity sg) \<or> (\<exists>sg. py q = Infinity sg)"
    for p q
    using that by (auto split: jsnum.splits)
  show ?thesis
    using 1 3 4 5 6 7 8 mapped_point[of P s] unfolding hit by blast
qed

theorem shotsFired_counts_and_shoots_witness:
  "roster_ok (addDucks 2 5 (Stage [] 440 600))
   \<and> scale (addDucks 2 5 (Stage [] 440 600)) = Point (Num False (2476979795053773 / 2 ^ 52)) (num 1)
   \<and> fst (snd (shotsFired (Point (num 253) (num 600)) (addDucks 2 5 (Stage [] 440 600)))) =
       Point (Num False (460 - 1 / 2 ^ 44)) (num 600)
   \<and> fst (shotsFired (Point (num 253) (num 600)) (addDucks 2 5 (Stage [] 440 600))) = 2
   \<and> \<not> alive (heap (snd (snd (shotsFired (Point (num 253) (num 600))
                                 (addDucks 2 5 (Stage [] 440 600))))) ! 0)
   \<and> script (dog (addDucks 2 5 (Stage [] 440 600))) = []
   \<and> script (dog (run [DuckStep 0 DUCK_ORIGIN, DuckStep 0 DUCK_ORIGIN]
        (snd (snd (shotsFired (Point (num 253) (num 600)) (addDucks 2 5 (Stage [] 440 600)))))))
       = [Retrieve]"
proof -
  let ?S = "addDucks 2 5 (Stage [] 440 600)"
  let ?P = "Point (num 253) (num 600)"
  have two: "?S = addDuck 1 5 (addDuck 0 5 (Stage [] 440 600))"
    using addDucks_Suc[of 1 5 "Stage [] 440 600"] by (simp add: addDucks_1 numeral_2_eq_2)
  have r: "ducks ?S = [0, 1]" "length (heap ?S) = 2"
    using addDucks_roster[of 2 5 "Stage [] 440 600"] by (simp_all add: Stage_simps upt_rec)
  have ok: "roster_ok ?S" by (simp add: roster_ok_def r)
  have sc: "scale ?S = Point (Num False (2476979795053773 / 2 ^ 52)) (num 1)"
    using js_div_examples(2,8) by (simp add: scale_addDucks Stage_simps)
  have dg: "script (dog ?S) = []" by (simp add: two addDuck_explicit Stage_simps)
  have P: "fst (snd (shotsFired ?P ?S)) = Point (Num False (460 - 1 / 2 ^ 44)) (num 600)"
    using js_div_examples(9,16) by (simp add: mapped_point sc) (simp add: Point_def)
  have h: "heap ?S ! 0 = randomFlight 5 ((new_Duck ''red'')\<lparr>position := DUCK_ORIGIN\<rparr>)"
     "heap ?S ! Suc 0 = randomFlight 5 ((new_Duck ''black'')\<lparr>position := DUCK_ORIGIN\<rparr>)"
    by (simp_all add: two addDuck_def Let_def Stage_simps nth_append DUCK_ORIGIN_def Point_def)
  have near: "js_less (pointDistance DUCK_ORIGIN (Point (Num False (460 - 1 / 2 ^ 44)) (num 600))) 60"
    by (simp add: DUCK_ORIGIN_def Point_def MAX_X_def MAX_Y_def js_val_def)
  have hit: "alive (heap ?S ! 0) \<and>
        js_less (pointDistance (position (heap ?S ! 0)) (fst (snd (shotsFired ?P ?S)))) 60"
     "alive (heap ?S ! Suc 0) \<and>
        js_less (pointDistance (position (heap ?S ! Suc 0)) (fst (snd (shotsFired ?P ?S)))) 60"
    using near unfolding P by (simp_all add: h randomFlight_def new_Duck_def)
  then have "{r \<in> set (ducks ?S). alive (heap ?S ! r) \<and>
       js_less (pointDistance (position (heap ?S ! r)) (fst (snd (shotsFired ?P ?S)))) 60}
       = {0, Suc 0}"
    by (auto simp add: r)
  note hits = this
  note th = shotsFired_counts_and_shoots[OF ok, of ?P]
  have mem: "0 \<in> set (ducks ?S)" by (simp add: r)
  have "fst (shotsFired ?P ?S) = card {0, Suc 0}"
    using th[THEN conjunct1] unfolding hits .
  then have c: "fst (shotsFired ?P ?S) = 2" by simp
  note h0 = th[THEN conjunct2, THEN conjunct1, rule_format, OF mem hit(1)]
  have d: "\<not> alive (heap (snd (snd (shotsFired ?P ?S))) ! 0)"
    using h0[THEN conjunct2, THEN conjunct1] .
  note h1 = h0[THEN conjunct2, THEN conjunct2, THEN conjunct2, rule_format,
      of DUCK_ORIGIN DUCK_ORIGIN]
  have "script (dog (run [DuckStep 0 DUCK_ORIGIN, DuckStep 0 DUCK_ORIGIN]
           (snd (snd (shotsFired ?P ?S))))) = script (dog ?S) @ [Retrieve]"
    using h1[THEN conjunct2, THEN conjunct2, THEN conjunct2] .
  then have e: "script (dog (run [DuckStep 0 DUCK_ORIGIN, DuckStep 0 DUCK_ORIGIN]
           (snd (snd (shotsFired ?P ?S))))) = [Retrieve]"
    by (simp only: dg append_Nil)
  show ?thesis using ok sc P c d dg e by blast
qed




section \<open>The coordinate mapping\<close>




text \<open>
  Claim C9. \<^verbatim>\<open>shotsFired(P)\<close> updates the caller's point in place: after the call its
  x is the old x divided by the x scale and its y the old y divided by the y scale, in
  the arithmetic of doubles. The point is changed whenever, on one axis, the scale is
  positive and further than \<open>2 ^ - 53\<close> from 1 and the exact quotient is at least
  \<open>2 ^ - 1022\<close>, the smallest normal double. Below that the rounding may give the old
  value back: in a window of 1200 by 600 pixels the click \<open>(MIN_VALUE, 0)\<close> is left as
  it is.
\<close>

theorem shotsFired_mutates_clickPoint:
  "fst (snd (shotsFired P s)) =
     P\<lparr>px := js_div (px P) (px (scale s)), py := js_div (py P) (py (scale s))\<rparr>
   \<and> ((px P = Num a m \<and> px (scale s) = Num b n \<and> 0 < n \<and> 2 ^ 52 * MIN_VALUE \<le> m / n
          \<and> 1 / 2 ^ 53 < \<bar>n - 1\<bar>) \<or>
       (py P = Num a' m' \<and> py (scale s) = Num b' n' \<and> 0 < n' \<and> 2 ^ 52 * MIN_VALUE \<le> m' / n'
          \<and> 1 / 2 ^ 53 < \<bar>n' - 1\<bar>)
       \<longrightarrow> fst (snd (shotsFired P s)) \<noteq> P)
   \<and> fst (snd (shotsFired (Point (Num False MIN_VALUE) (num 0)) (Stage [] 1200 600))) =
       Point (Num False MIN_VALUE) (num 0)"
proof -
  have x: "js_div (Num a m) (Num b n) \<noteq> Num a m"
    if "0 < n" "2 ^ 52 * MIN_VALUE \<le> m / n" "1 / 2 ^ 53 < \<bar>n - 1\<bar>" for a m b n
    using round64_changes[OF that] that(1) by (simp add: js_div_finite)
  have "fst (snd (shotsFired P s)) \<noteq> P"
    if "px P = Num a m \<and> px (scale s) = Num b n \<and> 0 < n \<and> 2 ^ 52 * MIN_VALUE \<le> m / n
          \<and> 1 / 2 ^ 53 < \<bar>n - 1\<bar>"
  proof
    assume "fst (snd (shotsFired P s)) = P"
    then have "px (fst (snd (shotsFired P s))) = px P" by simp
    then show False using that x[of n m a b] by (simp add: mapped_point)
  qed
  moreover have "fst (snd (shotsFired P s)) \<noteq> P"
    if "py P = Num a' m' \<and> py (scale s) = Num b' n' \<and> 0 < n' \<and> 2 ^ 52 * MIN_VALUE \<le> m' / n'
          \<and> 1 / 2 ^ 53 < \<bar>n' - 1\<bar>"
  proof
    assume "fst (snd (shotsFired P s)) = P"
    then have "py (fst (snd (shotsFired P s))) = py P" by simp
    then show False using that x[of n' m' a' b'] by (simp add: mapped_point)
  qed
  moreover have "fst (snd (shotsFired (Point (Num False MIN_VALUE) (num 0)) (Stage [] 1200 600))) =
       Point (Num False MIN_VALUE) (num 0)"
    using js_div_examples(2,5,18,19) by (simp add: mapped_point Stage_simps Point_def)
  ultimately show ?thesis using mapped_point by blast
qed

theorem shotsFired_mutates_clickPoint_witness:
  "fst (snd (shotsFired (Point (num 100) (num 90)) (Stage [] 1600 1200)))
     = Point (num 50) (num 45)
   \<and> fst (snd (shotsFired (Point (num 100) (num 90)) (Stage [] 1600 1200)))
      \<noteq> Point (num 100) (num 90)
   \<and> px (scale (Stage [] 1600 1200)) = Num False 2
   \<and> 2 ^ 52 * MIN_VALUE \<le> (100::real) / 2 \<and> 1 / 2 ^ 53 < \<bar>(2::real) - 1\<bar>"
proof -
  let ?P = "Point (num 100) (num 90)"
  let ?S = "Stage [] 1600 1200"
  have sc: "scale ?S = Point (Num False 2) (Num False 2)"
    by (simp add: Stage_simps js_div_examples)
  have n: "2 ^ 52 * MIN_VALUE \<le> (100::real) / 2" "1 / 2 ^ 53 < \<bar>(2::real) - 1\<bar>"
    by (simp_all add: MIN_VALUE_def)
  note th = shotsFired_mutates_clickPoint[where P = ?P and s = ?S and a = False and m = 100
      and b = False and n = 2]
  have hyp: "px ?P = Num False 100 \<and> px (scale ?S) = Num False 2 \<and> 0 < (2::real)
      \<and> 2 ^ 52 * MIN_VALUE \<le> (100::real) / 2 \<and> 1 / 2 ^ 53 < \<bar>(2::real) - 1\<bar>"
    using n by (simp add: sc Point_def)
  have 1: "fst (snd (shotsFired ?P ?S)) \<noteq> ?P"
    using th[THEN conjunct2, THEN conjunct1] hyp by blast
  have 2: "fst (snd (shotsFired ?P ?S)) = Point (num 50) (num 45)"
    by (simp add: mapped_point sc Point_def js_div_examples)
  have 3: "px (scale ?S) = Num False 2" by (simp add: sc Point_def)
  show ?thesis using 1 2 3 n by blast
qed

section \<open>Spawning\<close>

text \<open>
  Claim C4, as stated: after \<^verbatim>\<open>addDucks(n, speed)\<close> the query \<^verbatim>\<open>ducksAlive()\<close> becomes
  true if and only if \<open>n > 0\<close>. It fails on the roster \<open>W1\<close>, which holds a live duck:
  with \<open>n = 0\<close> the query is true after the call, and with \<open>n = 1\<close> it does not turn
  from false to true, being true before.
\<close>

theorem addDucks_alive_counterexample:
  "ducksAlive (addDucks 0 5 W1) \<noteq> (0 < (0::nat))
   \<and> (\<not> ducksAlive W1 \<and> ducksAlive (addDucks 1 5 W1)) \<noteq> (0 < (1::nat))"
  by (simp add: addDucks_0 addDucks_1 ducksAlive_addDuck W1_def)

text \<open>
  Claim C4, amended. \<^verbatim>\<open>addDucks(n, speed)\<close> appends \<open>n\<close> new ducks to the roster, so its
  size grows by exactly \<open>n\<close>, and afterwards some duck is alive if and only if \<open>n > 0\<close>
  or some duck was alive before the call.
\<close>

theorem addDucks_grows_roster:
  "length (ducks (addDucks n speed s)) = length (ducks s) + n
   \<and> ducks (addDucks n speed s) = ducks s @ [length (heap s) ..< length (heap s) + n]
   \<and> ducksAlive (addDucks n speed s) = (ducksAlive s \<or> 0 < n)"
proof (cases n)
  case 0
  then show ?thesis by (simp add: addDucks_0)
next
  case (Suc m)
  then show ?thesis
    using addDucks_roster[of n speed s] by (simp add: addDucks_Suc ducksAlive_addDuck)
qed

section \<open>The activity query\<close>

text \<open>
  Claim C3. For every state of the scene, \<^verbatim>\<open>isActive()\<close> is the disjunction of
  \<^verbatim>\<open>dogActive()\<close>, \<^verbatim>\<open>ducksAlive()\<close> and \<^verbatim>\<open>ducksActive()\<close>, where the dog's part is the
  dog's own \<^verbatim>\<open>isActive()\<close> and the two roster parts are existential over the roster
  (some member is alive, some member is animating). Each of the eight combinations of
  the three disjuncts occurs in some state, and there the query is their disjunction:
  false only when all three are false.
\<close>

theorem isActive_is_three_way_or:
  "isActive s = (dogActive s \<or> ducksAlive s \<or> ducksActive s)
   \<and> dogActive s = dog_isActive (dog s)
   \<and> ducksAlive s = (\<exists>r\<in>set (ducks s). alive (heap s ! r))
   \<and> ducksActive s = (\<exists>r\<in>set (ducks s). duck_isActive (heap s ! r))
   \<and> (\<forall>a b c. \<exists>s'. dogActive s' = a \<and> ducksAlive s' = b \<and> ducksActive s' = c
          \<and> isActive s' = (a \<or> b \<or> c))"
proof -
  have 1: "isActive s = (dogActive s \<or> ducksAlive s \<or> ducksActive s)" for s
    by (simp add: isActive_def js_or_iff)
  have 2: "\<exists>s'. dogActive s' = a \<and> ducksAlive s' = b \<and> ducksActive s' = c
          \<and> isActive s' = (a \<or> b \<or> c)" for a b c
  proof -
    define d where "d = \<lparr>colorProfile = ''red'', position = DUCK_ORIGIN, alive = b,
       timeline = (if c then [Death] else [])\<rparr>"
    define s' where "s' = (Stage [] 800 600)\<lparr>ducks := [0], heap := [d],
       dog := (dog (Stage [] 800 600))\<lparr>script := (if a then [Laugh] else [])\<rparr>\<rparr>"
    have "dogActive s' = a"
      by (simp add: s'_def dogActive_def dog_isActive_def)
    moreover have "ducksAlive s' = b"
      by (simp add: s'_def ducksAlive_def d_def)
    moreover have "ducksActive s' = c"
      by (simp add: s'_def ducksActive_def d_def duck_isActive_def)
    ultimately show ?thesis using 1[of s'] by blast
  qed
  show ?thesis using 1 2
    by (simp add: dogActive_def ducksAlive_def ducksActive_def lodash_some_iff)
qed

theorem isActive_is_three_way_or_witness:
  "\<not> isActive (Stage [] 800 600) \<and> isActive (addDucks 1 5 (Stage [] 800 600))"
proof -
  let ?s = "addDucks 1 5 (Stage [] 800 600)"
  have a: "ducks ?s = [0]" "alive (heap ?s ! 0)"
    by (simp_all add: addDucks_1 addDuck_def Let_def Stage_simps new_Duck_def randomFlight_def)
  have "\<not> dogActive (Stage [] 800 600)" "\<not> ducksAlive (Stage [] 800 600)"
    "\<not> ducksActive (Stage [] 800 600)"
    by (simp_all add: dogActive_def dog_isActive_def ducksAlive_def ducksActive_def Stage_simps)
  moreover have "ducksAlive ?s"
    using isActive_is_three_way_or[of ?s] a by simp
  ultimately show ?thesis
    using isActive_is_three_way_or[of "Stage [] 800 600"] isActive_is_three_way_or[of ?s]
    by simp
qed

section \<open>The flee sequence\<close>

text \<open>
  Claim C6, as stated: clearing the timelines of the live ducks keeps a retrieve trigger
  that was queued before from firing during the flee sequence. It fails on \<open>W3\<close>, a
  roster of a duck that has been shot and a live one: \<^verbatim>\<open>flyAway\<close> leaves the trigger of
  the shot duck queued, and when that duck's death animation and then the trigger
  complete, the dog is asked to retrieve behind its laugh, while the live duck is still
  flying and the promise of the sequence is unresolved.
\<close>

theorem flyAway_retrieve_fires_counterexample:
  "ducks W3 = [0, 1] \<and> \<not> alive (heap W3 ! 0) \<and> alive (heap W3 ! 1)
   \<and> Call DogRetrieve \<in> set (timeline (heap (snd (flyAway W3)) ! 0))
   \<and> script (dog (snd (flyAway W3))) = [Laugh]
   \<and> script (dog (run [DuckStep 0 DUCK_ORIGIN, DuckStep 0 DUCK_ORIGIN] (snd (flyAway W3)))) =
       [Laugh, Retrieve]
   \<and> timeline (heap (run [DuckStep 0 DUCK_ORIGIN, DuckStep 0 DUCK_ORIGIN] (snd (flyAway W3))) ! 1) =
       [FlyTo FLEE_POINT (Resolve 0)]
   \<and> \<not> resolved (run [DuckStep 0 DUCK_ORIGIN, DuckStep 0 DUCK_ORIGIN] (snd (flyAway W3)))
         (fst (flyAway W3))"
proof -
  let ?s1 = "snd (flyAway W3)"
  have r: "0 < length (heap ?s1)" and tl: "timeline (heap ?s1 ! 0) = [Death, Call DogRetrieve]"
    by (simp_all add: W3_fled(1))
  have dg: "script (dog ?s1) = [Laugh]" by (simp add: flyAway_parts(7) laugh_def W3_fields)
  have pr: "promises ?s1 = [False, False]" by (simp add: flyAway_parts(2) W3_fields)
  have q: "fst (flyAway W3) = 1" by (simp add: flyAway_parts W3_fields)
  note a = shot_run[OF r tl, where ?p1.0 = DUCK_ORIGIN and ?p2.0 = DUCK_ORIGIN]
  have 1: "script (dog (run [DuckStep 0 DUCK_ORIGIN, DuckStep 0 DUCK_ORIGIN] ?s1)) = [Laugh, Retrieve]"
    using a(1) by (simp only: dg) simp
  have 2: "timeline (heap (run [DuckStep 0 DUCK_ORIGIN, DuckStep 0 DUCK_ORIGIN] ?s1) ! 1) =
       [FlyTo FLEE_POINT (Resolve 0)]"
    using a(3)[where r' = 1] by (simp add: W3_fled(1))
  have 3: "\<not> resolved (run [DuckStep 0 DUCK_ORIGIN, DuckStep 0 DUCK_ORIGIN] ?s1) (fst (flyAway W3))"
    unfolding resolved_def a(2) pr q by simp
  have 4: "Call DogRetrieve \<in> set (timeline (heap ?s1 ! 0))" by (simp add: tl)
  have 5: "ducks W3 = [0, 1] \<and> \<not> alive (heap W3 ! 0) \<and> alive (heap W3 ! 1)"
    by (simp add: W3_fields)
  show ?thesis using 1 2 3 4 5 dg by blast
qed

text \<open>
  Claim C6, amended. In a state whose roster holds distinct allocated ducks, \<^verbatim>\<open>flyAway\<close>
  leaves every roster member that is alive when it is called as
  \<^verbatim>\<open>stopAndClearTimeline()\<close> followed by \<^verbatim>\<open>flyTo\<close> leaves it: its timeline holds the flight
  to the exit point (400, -500) and nothing else, and the flight's completion resolves a
  promise allocated by this call. The clearing takes no retrieve trigger away (in no
  state that the stage can reach does a live duck hold one: the trigger is queued on a
  duck that has just been shot). A roster member that is not alive is left exactly as
  it was, with what it has queued: the retrieve trigger of a duck shot before the call
  fires during the sequence, behind the dog's laugh and before the promise of the
  sequence is resolved. When \<^verbatim>\<open>flyAway\<close> returns, roster and scene are as before: the
  ducks that did not flee are still there, for \<^verbatim>\<open>cleanUpDucks\<close> to remove.
\<close>

theorem flyAway_clears_then_flies:
  assumes "roster_ok s"
  shows "(\<forall>r\<in>set (ducks s). alive (heap s ! r) \<longrightarrow>
           (\<exists>p. length (promises s) \<le> p \<and> p < fst (flyAway s) \<and>
              heap (snd (flyAway s)) ! r =
                flyTo FLEE_POINT (Resolve p) (stopAndClearTimeline (heap s ! r)) \<and>
              timeline (heap (snd (flyAway s)) ! r) = [FlyTo FLEE_POINT (Resolve p)] \<and>
              Call DogRetrieve \<notin> set (timeline (heap (snd (flyAway s)) ! r))))
       \<and> (\<forall>r\<in>set (ducks s). \<not> alive (heap s ! r) \<longrightarrow>
             heap (snd (flyAway s)) ! r = heap s ! r)
       \<and> ducks (snd (flyAway s)) = ducks s \<and> children (snd (flyAway s)) = children s
       \<and> FLEE_POINT = Point 400 (- 500)
       \<and> (reachable s \<longrightarrow>
            (\<forall>r<length (heap s). alive (heap s ! r) \<longrightarrow>
               Call DogRetrieve \<notin> set (timeline (heap s ! r))))
       \<and> (\<forall>r\<in>set (ducks s).
             \<not> alive (heap s ! r) \<and> timeline (heap s ! r) = [Death, Call DogRetrieve] \<longrightarrow>
               (\<forall>p1 p2.
                  script (dog (run [DuckStep r p1, DuckStep r p2] (snd (flyAway s)))) =
                    script (dog s) @ [Laugh, Retrieve]
                \<and> \<not> resolved (run [DuckStep r p1, DuckStep r p2] (snd (flyAway s)))
                      (fst (flyAway s))))"
proof -
  let ?s0 = "s\<lparr>dog := laugh (dog s)\<rparr>"
  let ?A = "filter (\<lambda>r. alive (heap s ! r)) (ducks s)"
  have d: "distinct (ducks ?s0)" and b: "\<forall>r\<in>set (ducks ?s0). r < length (heap ?s0)"
    using assms by (simp_all add: roster_ok_def list_all_iff)
  have 1: "\<exists>p. length (promises s) \<le> p \<and> p < fst (flyAway s) \<and>
              heap (snd (flyAway s)) ! r =
                flyTo FLEE_POINT (Resolve p) (stopAndClearTimeline (heap s ! r)) \<and>
              timeline (heap (snd (flyAway s)) ! r) = [FlyTo FLEE_POINT (Resolve p)] \<and>
              Call DogRetrieve \<notin> set (timeline (heap (snd (flyAway s)) ! r))"
    if "r \<in> set (ducks s)" "alive (heap s ! r)" for r
  proof -
    have "r \<in> set ?A" using that by simp
    then obtain i where i: "i < length ?A" "?A ! i = r" by (metis in_set_conv_nth)
    have "heap (fst (flee (ducks ?s0) ?s0 [])) ! (filter (\<lambda>r. alive (heap ?s0 ! r)) (ducks ?s0) ! i)
        = flyTo FLEE_POINT (Resolve (length (promises ?s0) + i))
            (stopAndClearTimeline (heap ?s0 ! (filter (\<lambda>r. alive (heap ?s0 ! r)) (ducks ?s0) ! i)))"
      using i by (intro flee_participant[OF d b]) simp
    then have h: "heap (snd (flyAway s)) ! r =
        flyTo FLEE_POINT (Resolve (length (promises s) + i)) (stopAndClearTimeline (heap s ! r))"
      using i by (simp add: flyAway_parts)
    show ?thesis
      by (rule exI[of _ "length (promises s) + i"])
         (use i in \<open>simp add: h flyAway_parts(1) flyTo_def stopAndClearTimeline_def\<close>)
  qed
  have 2: "heap (snd (flyAway s)) ! r = heap s ! r" if "\<not> alive (heap s ! r)" for r
    using that flee_other[of r "ducks ?s0" ?s0 "[]"] by (simp add: flyAway_parts)
  have 3: "FLEE_POINT = Point 400 (- 500)" by (simp add: FLEE_POINT_def MAX_X_def)
  have 4: "alive (heap s ! r) \<longrightarrow> Call DogRetrieve \<notin> set (timeline (heap s ! r))"
    if "reachable s" "r < length (heap s)" for r
    using reachable_live_clean[OF that(1)] that(2) by (simp add: list_all_length)
  have 5: "script (dog (run [DuckStep r p1, DuckStep r p2] (snd (flyAway s)))) =
             script (dog s) @ [Laugh, Retrieve]
         \<and> \<not> resolved (run [DuckStep r p1, DuckStep r p2] (snd (flyAway s))) (fst (flyAway s))"
    if r: "r \<in> set (ducks s)" and dead: "\<not> alive (heap s ! r)"
      and tl: "timeline (heap s ! r) = [Death, Call DogRetrieve]" for r p1 p2
  proof -
    have len: "r < length (heap (snd (flyAway s)))"
      using b r flee_frame[of "ducks s" ?s0 "[]"] by (simp add: flyAway_parts(4))
    have tl': "timeline (heap (snd (flyAway s)) ! r) = [Death, Call DogRetrieve]"
      using 2[OF dead] tl by simp
    note a = shot_run[OF len tl', where ?p1.0 = p1 and ?p2.0 = p2]
    have "\<not> resolved (snd (flyAway s)) (fst (flyAway s))"
      by (simp add: resolved_def flyAway_parts(1,2) nth_append del: replicate.simps)
    then have "\<not> resolved (run [DuckStep r p1, DuckStep r p2] (snd (flyAway s))) (fst (flyAway s))"
      unfolding resolved_def a(2) .
    moreover have "script (dog (run [DuckStep r p1, DuckStep r p2] (snd (flyAway s)))) =
             script (dog s) @ [Laugh, Retrieve]"
      unfolding a(1) by (simp add: flyAway_parts(7) laugh_def)
    ultimately show ?thesis by blast
  qed
  show ?thesis using 1 2 3 4 5 by (simp add: flyAway_parts(5,6))
qed

theorem flyAway_clears_then_flies_witness:
  "roster_ok W3 \<and> reachable W3 \<and> alive (heap W3 ! 1) \<and> \<not> alive (heap W3 ! 0)
   \<and> timeline (heap (snd (flyAway W3)) ! 1) = [FlyTo FLEE_POINT (Resolve 0)]
   \<and> heap (snd (flyAway W3)) ! 0 = heap W3 ! 0
   \<and> timeline (heap W3 ! 0) = [Death, Call DogRetrieve]
   \<and> Call DogRetrieve \<notin> set (timeline (heap W3 ! 1))
   \<and> script (dog (run [DuckStep 0 FLEE_POINT, DuckStep 0 FLEE_POINT] (snd (flyAway W3)))) =
       [Laugh, Retrieve]"
proof -
  have ok: "roster_ok W3" using stage_ok_W(3) by (simp add: stage_ok_def)
  have re: "reachable W3"
    unfolding W3_def W2_def W1_def by (intro reachable.intros)
  have q: "fst (flyAway W3) = 1" by (simp add: flyAway_parts W3_fields)
  note th = flyAway_clears_then_flies[OF ok]
  have "\<exists>p. p < fst (flyAway W3) \<and>
          timeline (heap (snd (flyAway W3)) ! 1) = [FlyTo FLEE_POINT (Resolve p)]"
    using th by (simp add: W3_fields) blast
  then have 1: "timeline (heap (snd (flyAway W3)) ! 1) = [FlyTo FLEE_POINT (Resolve 0)]"
    unfolding q by auto
  have 2: "heap (snd (flyAway W3)) ! 0 = heap W3 ! 0"
    using th by (simp add: W3_fields)
  have "reachable W3 \<longrightarrow>
            (\<forall>r<length (heap W3). alive (heap W3 ! r) \<longrightarrow>
               Call DogRetrieve \<notin> set (timeline (heap W3 ! r)))"
    using th by blast
  then have 3: "Call DogRetrieve \<notin> set (timeline (heap W3 ! 1))"
    using re by (simp add: W3_fields)
  have "\<forall>r\<in>set (ducks W3).
             \<not> alive (heap W3 ! r) \<and> timeline (heap W3 ! r) = [Death, Call DogRetrieve] \<longrightarrow>
               (\<forall>p1 p2.
                  script (dog (run [DuckStep r p1, DuckStep r p2] (snd (flyAway W3)))) =
                    script (dog W3) @ [Laugh, Retrieve]
                \<and> \<not> resolved (run [DuckStep r p1, DuckStep r p2] (snd (flyAway W3)))
                      (fst (flyAway W3)))"
    using th by blast
  then have 4: "script (dog (run [DuckStep 0 FLEE_POINT, DuckStep 0 FLEE_POINT] (snd (flyAway W3)))) =
       [Laugh, Retrieve]"
    by (simp add: W3_fields)
  show ?thesis using ok re 1 2 3 4 by (simp add: W3_fields)
qed

text \<open>
  Claim C10. When no roster member is alive, \<^verbatim>\<open>flyAway\<close> sends no command to any duck
  and queues a teardown that waits for no promise. The returned promise is unresolved
  when \<^verbatim>\<open>flyAway\<close> returns and resolved by the next run of the promise scheduler, which
  empties the roster and removes the sprite of every duck that was on it, all of them
  dead, from the scene.
\<close>

theorem flyAway_without_live_ducks:
  assumes "distinct (children s)" and "\<not> ducksAlive s"
  shows "\<not> resolved (snd (flyAway s)) (fst (flyAway s))
       \<and> joins (snd (flyAway s)) =
           joins s @ [\<lparr>waits = [], handler = CleanUp, derived = fst (flyAway s)\<rparr>]
       \<and> heap (snd (flyAway s)) = heap s
       \<and> ducks (snd (flyAway s)) = ducks s \<and> children (snd (flyAway s)) = children s
       \<and> resolved (step Tick (snd (flyAway s))) (fst (flyAway s))
       \<and> ducks (step Tick (snd (flyAway s))) = []
       \<and> (\<forall>r\<in>set (ducks s). DuckSprite r \<notin> set (children (step Tick (snd (flyAway s)))))"
proof -
  let ?q = "fst (flyAway s)" and ?s1 = "snd (flyAway s)"
  let ?jq = "\<lparr>waits = [], handler = CleanUp, derived = ?q\<rparr>"
  have dead: "\<forall>r\<in>set (ducks s). \<not> alive (heap s ! r)"
    using assms(2) by (simp add: ducksAlive_def lodash_some_iff)
  then have A: "filter (\<lambda>r. alive (heap s ! r)) (ducks s) = []" by simp
  have q: "?q = length (promises s)" by (simp add: flyAway_parts A)
  have pr: "promises ?s1 = promises s @ [False]" by (simp add: flyAway_parts A)
  have js: "joins ?s1 = joins s @ [?jq]" by (simp add: flyAway_parts A)
  have hp: "heap ?s1 = heap s"
    using flee_none_alive[of "ducks s" "s\<lparr>dog := laugh (dog s)\<rparr>" "[]"] dead
    by (simp add: flyAway_parts)
  have 1: "\<not> resolved ?s1 ?q" by (simp add: resolved_def pr q)
  define P where "P t = (sprites_gone (set (ducks s)) t \<and> length (promises t) = Suc ?q)" for t
  define t' where "t' = settle (joins s) (?s1\<lparr>joins := []\<rparr>)"
  have "P (?s1\<lparr>joins := []\<rparr>)"
    using assms(1) by (simp add: P_def sprites_gone_def flyAway_parts pr q)
  then have "P t'"
    unfolding t'_def
  proof (rule settle_invariant)
    fix t and j :: join assume "P t"
    then show "P (resolve (derived j) (run_callback (handler j) t))"
      using sprites_gone_callback[of "set (ducks s)" t "handler j"]
      by (simp add: P_def sprites_gone_def resolve_fields run_callback_frame)
  next
    fix t and j :: join assume "P t"
    then show "P (t\<lparr>joins := joins t @ [j]\<rparr>)" by (simp add: P_def sprites_gone_def)
  qed
  then have g: "sprites_gone (set (ducks s)) (run_callback CleanUp t')"
    and len: "length (promises t') = Suc ?q"
    using sprites_gone_callback[of "set (ducks s)" t' CleanUp] by (simp_all add: P_def)
  have tick: "tick ?s1 = resolve ?q (cleanUpDucks t')"
    by (simp add: tick_def js settle_append t'_def[symmetric] ready_def)
  have 2: "resolved (step Tick ?s1) ?q"
    using len by (simp add: tick resolved_resolve cleanUpDucks_def)
  have 3: "ducks (step Tick ?s1) = []" by (simp add: tick resolve_fields cleanUpDucks_def)
  have 4: "DuckSprite r \<notin> set (children (step Tick ?s1))" if "r \<in> set (ducks s)" for r
    using g that by (auto simp add: tick resolve_fields sprites_gone_def cleanUpDucks_def)
  show ?thesis using 1 2 3 4 js hp by (simp add: flyAway_parts)
qed

theorem flyAway_without_live_ducks_witness:
  "distinct (children W2) \<and> \<not> ducksAlive W2 \<and> DuckSprite 0 \<in> set (children W2)
   \<and> fst (flyAway W2) = 0
   \<and> \<not> resolved (snd (flyAway W2)) 0
   \<and> resolved (step Tick (snd (flyAway W2))) 0
   \<and> ducks (step Tick (snd (flyAway W2))) = []
   \<and> DuckSprite 0 \<notin> set (children (step Tick (snd (flyAway W2))))"
proof -
  have d: "distinct (children W2)" by (simp add: W2_fields)
  have a: "\<not> ducksAlive W2" by (simp add: ducksAlive_def W2_fields)
  have q: "fst (flyAway W2) = 0" by (simp add: flyAway_parts W2_fields)
  show ?thesis
    using flyAway_without_live_ducks[OF d a] d a unfolding q by (simp add: W2_fields)
qed



section \<open>The intro sequence\<close>

text \<open>
  Claim C5. In a well-formed state \<open>s\<close>, \<^verbatim>\<open>preLevelAnimation\<close> empties the roster and
  removes its sprites, then queues \<^verbatim>\<open>sniff\<close> followed by \<^verbatim>\<open>find\<close> behind what the dog
  still has to do; the completion callback of \<^verbatim>\<open>find\<close> is for a new promise, so it is
  queued exactly once. The promise stays unresolved until \<^verbatim>\<open>find\<close> completes (state
  \<open>s2\<close>, with \<^verbatim>\<open>find\<close> alone left); the completion (state \<open>s3\<close>) moves the dog to child
  index 0, resolves the promise and leaves nothing queued. A second call made then
  returns another promise, which the completion of its own \<^verbatim>\<open>find\<close> resolves (state
  \<open>s5\<close>); the roster is empty after each call and at each resolution.

  Nothing else resolves the promise. Let any sequence of actions follow the call,
  events of the host and calls of the stage's methods by the game in any order. If the
  promise is resolved at the end, then a step of the dog in the sequence resolved it:
  the step that completed the \<^verbatim>\<open>find\<close> of this call, then at the front of the dog's
  queue, and moved the dog to child index 0; and an earlier step of the dog completed
  the \<^verbatim>\<open>sniff\<close> of this call, queued right before that \<^verbatim>\<open>find\<close>.
\<close>

theorem preLevelAnimation_intro:
  assumes "stage_ok s"
  shows "let p = fst (preLevelAnimation s); s1 = snd (preLevelAnimation s);
             s2 = run (replicate (Suc (length (script (dog s)))) DogStep) s1;
             s3 = step DogStep s2;
             p' = fst (preLevelAnimation s3); s4 = snd (preLevelAnimation s3);
             s5 = run [DogStep, DogStep] s4
         in ducks s1 = [] \<and> (\<forall>r\<in>set (ducks s). DuckSprite r \<notin> set (children s1))
          \<and> script (dog s1) =
              script (dog s) @ [Sniff DOG_SNIFF_START DOG_SNIFF_END, Find (FindComplete p)]
          \<and> Find (FindComplete p) \<notin> set (script (dog s))
          \<and> \<not> resolved s1 p \<and> \<not> resolved s2 p \<and> script (dog s2) = [Find (FindComplete p)]
          \<and> resolved s3 p \<and> children s3 = DogSprite # remove1 DogSprite (children s2)
          \<and> script (dog s3) = [] \<and> ducks s3 = []
          \<and> p' \<noteq> p \<and> ducks s4 = [] \<and> \<not> resolved s4 p' \<and> resolved s5 p' \<and> resolved s5 p
          \<and> ducks s5 = [] \<and> hd (children s5) = DogSprite
          \<and> (\<forall>as. resolved (acts as s1) p \<longrightarrow>
                (\<exists>bs cs. as = bs @ Host DogStep # cs
                   \<and> \<not> resolved (acts bs s1) p
                   \<and> resolved (step DogStep (acts bs s1)) p
                   \<and> (\<exists>post. script (dog (acts bs s1)) = Find (FindComplete p) # post)
                   \<and> children (step DogStep (acts bs s1)) =
                       DogSprite # remove1 DogSprite (children (acts bs s1))
                   \<and> (\<exists>ds es post. bs = ds @ Host DogStep # es
                         \<and> script (dog (acts ds s1)) =
                             Sniff DOG_SNIFF_START DOG_SNIFF_END # Find (FindComplete p) # post)))"
proof -
  define p where "p = length (promises s)"
  define s1 where "s1 = snd (preLevelAnimation s)"
  define s2 where "s2 = run (replicate (Suc (length (script (dog s)))) DogStep) s1"
  define s3 where "s3 = dogStep s2"
  define s4 where "s4 = snd (preLevelAnimation s3)"
  define u where "u = run (replicate (Suc (length (script (dog s3)))) DogStep) s4"
  define s5 where "s5 = dogStep u"
  note a = intro_core[OF assms, folded s1_def, folded s2_def, folded p_def]
  have s3: "s3 = resolve p (s2\<lparr>dog := (dog s2)\<lparr>script := []\<rparr>,
                 children := DogSprite # remove1 DogSprite (children s2)\<rparr>)"
    using a(7) by (simp add: s3_def)
  have r3: "resolved s3 p" "children s3 = DogSprite # remove1 DogSprite (children s2)"
    "script (dog s3) = []" "ducks s3 = []" "length (promises s3) = Suc p"
    using a(8,9) by (simp_all add: s3 resolved_resolve resolve_fields)
  have ok3: "stage_ok s3" unfolding s3_def using a(10) by (rule stage_ok_dogStep)
  note b = intro_core[OF ok3, folded s4_def, folded u_def, unfolded r3(5)]
  have s5: "s5 = resolve (Suc p) (u\<lparr>dog := (dog u)\<lparr>script := []\<rparr>,
                 children := DogSprite # remove1 DogSprite (children u)\<rparr>)"
    using b(7) by (simp add: s5_def)
  have "resolved u p" using b(11) r3(1) by simp
  then have r5: "resolved s5 (Suc p)" "resolved s5 p" "ducks s5 = []" "hd (children s5) = DogSprite"
    using b(8,9) by (simp_all add: s5 resolved_resolve resolve_fields) (simp add: resolved_def)
  have run2: "run [DogStep, DogStep] s4 = s5"
    by (simp add: s5_def u_def r3(3))
  have sc1: "script (dog s1) =
      script (dog s) @ [Sniff DOG_SNIFF_START DOG_SNIFF_END, Find (FindComplete p)]"
    by (simp add: s1_def p_def preLevelAnimation_parts)
  have p': "fst (preLevelAnimation s3) = Suc p" by (simp add: preLevelAnimation_parts r3(5))
  have fp: "fst (preLevelAnimation s) = p" by (simp add: preLevelAnimation_parts p_def)
  have A: "let p = fst (preLevelAnimation s); s1 = snd (preLevelAnimation s);
               s2 = run (replicate (Suc (length (script (dog s)))) DogStep) s1;
               s3 = step DogStep s2;
               p' = fst (preLevelAnimation s3); s4 = snd (preLevelAnimation s3);
               s5 = run [DogStep, DogStep] s4
           in ducks s1 = [] \<and> (\<forall>r\<in>set (ducks s). DuckSprite r \<notin> set (children s1))
            \<and> script (dog s1) =
                script (dog s) @ [Sniff DOG_SNIFF_START DOG_SNIFF_END, Find (FindComplete p)]
            \<and> Find (FindComplete p) \<notin> set (script (dog s))
            \<and> \<not> resolved s1 p \<and> \<not> resolved s2 p \<and> script (dog s2) = [Find (FindComplete p)]
            \<and> resolved s3 p \<and> children s3 = DogSprite # remove1 DogSprite (children s2)
            \<and> script (dog s3) = [] \<and> ducks s3 = []
            \<and> p' \<noteq> p \<and> ducks s4 = [] \<and> \<not> resolved s4 p' \<and> resolved s5 p' \<and> resolved s5 p
            \<and> ducks s5 = [] \<and> hd (children s5) = DogSprite"
    unfolding Let_def fp p' step.simps
    unfolding s1_def[symmetric] s2_def[symmetric] s3_def[symmetric] s4_def[symmetric] run2
    using a(1-6) sc1 r3(1-4) b(1,4) r5 by (simp add: p')
  note B = intro_history[OF assms]
  show ?thesis using A B unfolding Let_def by blast
qed

theorem preLevelAnimation_intro_witness:
  "stage_ok (Stage [] 800 600) \<and> ducks (Stage [] 800 600) = []
   \<and> fst (preLevelAnimation (Stage [] 800 600)) = 0
   \<and> \<not> resolved (snd (preLevelAnimation (Stage [] 800 600))) 0
   \<and> resolved (run [DogStep, DogStep] (snd (preLevelAnimation (Stage [] 800 600)))) 0
   \<and> ducks (run [DogStep, DogStep] (snd (preLevelAnimation (Stage [] 800 600)))) = []
   \<and> hd (children (run [DogStep, DogStep] (snd (preLevelAnimation (Stage [] 800 600))))) = DogSprite
   \<and> resolved (acts [Host DogStep, AddDucks 1 5, Host Tick, Host DogStep]
         (snd (preLevelAnimation (Stage [] 800 600)))) 0
   \<and> (\<exists>bs cs ds es. [Host DogStep, AddDucks 1 5, Host Tick, Host DogStep] = bs @ Host DogStep # cs
         \<and> bs = ds @ Host DogStep # es
         \<and> \<not> resolved (acts bs (snd (preLevelAnimation (Stage [] 800 600)))) 0)"
proof -
  let ?S = "Stage [] 800 600"
  let ?as = "[Host DogStep, AddDucks 1 5, Host Tick, Host DogStep]"
  have p: "fst (preLevelAnimation ?S) = 0"
    by (simp add: preLevelAnimation_parts Stage_simps)
  note th = preLevelAnimation_intro[OF stage_ok_Stage, of "[]" 800 600, unfolded Let_def p]
  have 1: "stage_ok ?S \<and> ducks ?S = []
   \<and> \<not> resolved (snd (preLevelAnimation ?S)) 0
   \<and> resolved (run [DogStep, DogStep] (snd (preLevelAnimation ?S))) 0
   \<and> ducks (run [DogStep, DogStep] (snd (preLevelAnimation ?S))) = []
   \<and> hd (children (run [DogStep, DogStep] (snd (preLevelAnimation ?S)))) = DogSprite"
    using th by (simp add: Stage_simps stage_ok_Stage)
  have r: "resolved (acts ?as (snd (preLevelAnimation ?S))) 0" by (rule intro_trace(1))
  have "resolved (acts ?as (snd (preLevelAnimation ?S))) 0 \<longrightarrow>
                (\<exists>bs cs. ?as = bs @ Host DogStep # cs
                   \<and> \<not> resolved (acts bs (snd (preLevelAnimation ?S))) 0
                   \<and> resolved (step DogStep (acts bs (snd (preLevelAnimation ?S)))) 0
                   \<and> (\<exists>post. script (dog (acts bs (snd (preLevelAnimation ?S)))) =
                         Find (FindComplete 0) # post)
                   \<and> children (step DogStep (acts bs (snd (preLevelAnimation ?S)))) =
                       DogSprite # remove1 DogSprite (children (acts bs (snd (preLevelAnimation ?S))))
                   \<and> (\<exists>ds es post. bs = ds @ Host DogStep # es
                         \<and> script (dog (acts ds (snd (preLevelAnimation ?S)))) =
                             Sniff DOG_SNIFF_START DOG_SNIFF_END # Find (FindComplete 0) # post))"
    using th by blast
  then have 2: "\<exists>bs cs ds es. ?as = bs @ Host DogStep # cs
         \<and> bs = ds @ Host DogStep # es
         \<and> \<not> resolved (acts bs (snd (preLevelAnimation ?S))) 0"
    using r by blast
  show ?thesis using 1 2 r p by blast
qed

end
